theory Spec2Isabelle
  imports Main "HOL-Library.Word"
begin

section \<open>Machine types and undefined behaviour\<close>

type_synonym u8 = "8 word"
type_synonym u16 = "16 word"
type_synonym u32 = "32 word"
type_synonym u64 = "64 word"

text \<open>
  The verifier of \<^verbatim>\<open>ckb_mmr.h\<close> is C. Unsigned arithmetic wraps around and is modelled by
  word arithmetic. Operations to which C gives no meaning are results of their own: a
  computation returns \<open>Inl f\<close> where the C code would shift out of range, count the
  leading zeros of 0, or touch an array outside its bounds, and \<open>Inr v\<close> otherwise.
\<close>

datatype fault = UndefinedShift | UndefinedClz | StackOutOfBounds | BufferOutOfBounds

text \<open>\<^verbatim>\<open>x << n\<close> on \<^verbatim>\<open>uint64_t\<close>: defined for \<open>n < 64\<close>, the high bits are dropped.\<close>

definition shl_u64 :: "u64 \<Rightarrow> nat \<Rightarrow> fault + u64" where
  "shl_u64 x n = (if n < 64 then Inr (push_bit n x) else Inl UndefinedShift)"

text \<open>
  \<^verbatim>\<open>x << n\<close> on \<^verbatim>\<open>int\<close> (32 bits, signed): defined for \<open>n < 32\<close>, a non-negative \<open>x\<close> and a
  result that \<^verbatim>\<open>int\<close> can hold.
\<close>

definition shl_int :: "int \<Rightarrow> nat \<Rightarrow> fault + int" where
  "shl_int x n =
     (if n < 32 \<and> 0 \<le> x \<and> x * 2 ^ n \<le> 2147483647 then Inr (x * 2 ^ n)
      else Inl UndefinedShift)"

section \<open>Constants of the header\<close>

definition MMR_STACK_SIZE :: nat where
  "MMR_STACK_SIZE = 257"

abbreviation ERROR_INVALID_STACK :: int where "ERROR_INVALID_STACK \<equiv> 80"
abbreviation ERROR_INVALID_COMMAND :: int where "ERROR_INVALID_COMMAND \<equiv> 81"
abbreviation ERROR_INVALID_PROOF :: int where "ERROR_INVALID_PROOF \<equiv> 82"
abbreviation ERROR_PROOF_EOF :: int where "ERROR_PROOF_EOF \<equiv> 83"
abbreviation ERROR_LEAF_EOF :: int where "ERROR_LEAF_EOF \<equiv> 84"
abbreviation ERROR_NO_MORE_LEAFS :: int where "ERROR_NO_MORE_LEAFS \<equiv> 85"
abbreviation ERROR_NO_MORE_COMMANDS :: int where "ERROR_NO_MORE_COMMANDS \<equiv> 86"
abbreviation ERROR_NODE_EOF :: int where "ERROR_NODE_EOF \<equiv> 87"

abbreviation MMR_NODE_TYPE_BUFFER :: u8 where "MMR_NODE_TYPE_BUFFER \<equiv> 1"
abbreviation MMR_NODE_TYPE_POINTER :: u8 where "MMR_NODE_TYPE_POINTER \<equiv> 2"

abbreviation MMR_STACK_NODE :: u8 where "MMR_STACK_NODE \<equiv> 1"
abbreviation MMR_STACK_PROOF :: u8 where "MMR_STACK_PROOF \<equiv> 2"
abbreviation MMR_STACK_PEAK :: u8 where "MMR_STACK_PEAK \<equiv> 3"

section \<open>Nodes and the merge hooks\<close>

text \<open>
  \<^verbatim>\<open>mmr_node_t\<close>: a tag, the digest bytes and their count. \<open>node_value\<close> holds the bytes
  that \<^verbatim>\<open>mmr_node_value\<close> points at: the inline buffer of a \<^verbatim>\<open>MMR_NODE_TYPE_BUFFER\<close> node,
  the bytes of the source buffer behind the pointer of a \<^verbatim>\<open>MMR_NODE_TYPE_POINTER\<close> node.
\<close>

record mmr_node_t =
  node_t :: u8
  node_value :: "u8 list"
  node_length :: u32

definition mmr_node_value :: "mmr_node_t \<Rightarrow> u8 list" where
  "mmr_node_value node = node_value node"

text \<open>
  \<^verbatim>\<open>MMR_MERGE\<close>, \<^verbatim>\<open>MMR_MERGE_PEAKS\<close> and \<^verbatim>\<open>MMR_MEMCMP\<close> are macros that the includer may
  redefine. The verifier takes them as parameters: a merge hook maps the left and the right
  operand to the node it leaves in \<^verbatim>\<open>dst\<close>.
\<close>

record mmr_hooks =
  MMR_MERGE :: "mmr_node_t \<Rightarrow> mmr_node_t \<Rightarrow> mmr_node_t"
  MMR_MERGE_PEAKS :: "mmr_node_t \<Rightarrow> mmr_node_t \<Rightarrow> mmr_node_t"
  MMR_MEMCMP :: "u8 list \<Rightarrow> u8 list \<Rightarrow> u32 \<Rightarrow> int"

text \<open>
  \<^verbatim>\<open>mmr_blake2b_merge\<close>, the default of both merge hooks, over a digest function \<open>H\<close> that
  stands for blake2b with 32 bytes of output and the personalisation of CKB.
\<close>

definition mmr_blake2b_merge :: "(u8 list \<Rightarrow> u8 list) \<Rightarrow> mmr_node_t \<Rightarrow> mmr_node_t \<Rightarrow> mmr_node_t" where
  "mmr_blake2b_merge H lhs rhs =
     \<lparr>node_t = MMR_NODE_TYPE_BUFFER,
      node_value = H (take (unat (node_length lhs)) (mmr_node_value lhs)
                      @ take (unat (node_length rhs)) (mmr_node_value rhs)),
      node_length = 32\<rparr>"

text \<open>
  \<^verbatim>\<open>memcmp\<close> of the C library, the default of \<^verbatim>\<open>MMR_MEMCMP\<close>: 0 when the first \<open>n\<close> bytes
  agree, the difference of the first two bytes that differ otherwise. The caller passes
  buffers that hold \<open>n\<close> bytes.
\<close>

fun memcmp :: "u8 list \<Rightarrow> u8 list \<Rightarrow> nat \<Rightarrow> int" where
  "memcmp (x # xs) (y # ys) (Suc n) = (if x = y then memcmp xs ys n else uint x - uint y)"
| "memcmp xs ys n = 0"

definition default_hooks :: "(u8 list \<Rightarrow> u8 list) \<Rightarrow> mmr_hooks" where
  "default_hooks H =
     \<lparr>MMR_MERGE = mmr_blake2b_merge H, MMR_MERGE_PEAKS = mmr_blake2b_merge H,
      MMR_MEMCMP = (\<lambda>a b n. memcmp a b (unat n))\<rparr>"

section \<open>Input readers\<close>

text \<open>\<^verbatim>\<open>mmr_default_buffer_reader_t\<close>: a byte buffer, its declared length and a cursor.\<close>

record mmr_default_buffer_reader_t =
  buffer :: "u8 list"
  buffer_length :: u32
  index :: u32

definition mmr_default_buffer_reader_init :: "u8 list \<Rightarrow> u32 \<Rightarrow> mmr_default_buffer_reader_t" where
  "mmr_default_buffer_reader_init buf len = \<lparr>buffer = buf, buffer_length = len, index = 0\<rparr>"

text \<open>Reading \<open>n\<close> bytes at offset \<open>i\<close>; outside the buffer the read is a fault.\<close>

definition read_bytes :: "u8 list \<Rightarrow> nat \<Rightarrow> nat \<Rightarrow> fault + u8 list" where
  "read_bytes buf i n =
     (if i + n \<le> length buf then Inr (take n (drop i buf)) else Inl BufferOutOfBounds)"

text \<open>The value of an unsigned integer stored least significant byte first.\<close>

fun le_value :: "u8 list \<Rightarrow> nat" where
  "le_value [] = 0"
| "le_value (b # bs) = unat b + 256 * le_value bs"

text \<open>
  A reader returns the context it leaves behind and either the error code it returned
  (\<open>Inl\<close>, the out parameters are left alone) or the values it stored with return code 0
  (\<open>Inr\<close>).
\<close>

type_synonym 'a reading = "fault + (mmr_default_buffer_reader_t \<times> (int + 'a))"

definition mmr_default_buffer_read_node :: "mmr_default_buffer_reader_t \<Rightarrow> mmr_node_t reading" where
  "mmr_default_buffer_read_node c =
     (if buffer_length c - index c < 2 then Inr (c, Inl ERROR_NODE_EOF)
      else case read_bytes (buffer c) (unat (index c)) 2 of
        Inl f \<Rightarrow> Inl f
      | Inr bs \<Rightarrow>
          let len = (of_nat (le_value bs) :: u16) in
          if buffer_length c - index c - 2 < ucast len then Inr (c, Inl ERROR_NODE_EOF)
          else Inr (c\<lparr>index := index c + (2 + ucast len)\<rparr>,
                    Inr \<lparr>node_t = MMR_NODE_TYPE_POINTER,
                         node_value = take (unat len) (drop (unat (index c + 2)) (buffer c)),
                         node_length = ucast len\<rparr>))"

definition mmr_default_command_read :: "mmr_default_buffer_reader_t \<Rightarrow> u8 reading" where
  "mmr_default_command_read c =
     (if index c \<ge> buffer_length c then Inr (c, Inl ERROR_NO_MORE_COMMANDS)
      else case read_bytes (buffer c) (unat (index c)) 1 of
        Inl f \<Rightarrow> Inl f
      | Inr bs \<Rightarrow> Inr (c\<lparr>index := index c + 1\<rparr>, Inr (of_nat (le_value bs))))"

definition mmr_default_leaf_iter_read :: "mmr_default_buffer_reader_t \<Rightarrow> (mmr_node_t \<times> u64) reading" where
  "mmr_default_leaf_iter_read c =
     (if index c \<ge> buffer_length c then Inr (c, Inl ERROR_NO_MORE_LEAFS)
      else if buffer_length c - index c < 8 then Inr (c, Inl ERROR_LEAF_EOF)
      else case read_bytes (buffer c) (unat (index c)) 8 of
        Inl f \<Rightarrow> Inl f
      | Inr bs \<Rightarrow>
          let position = (of_nat (le_value bs) :: u64) in
          (case mmr_default_buffer_read_node (c\<lparr>index := index c + 8\<rparr>) of
             Inl f \<Rightarrow> Inl f
           | Inr (c', Inl ret) \<Rightarrow> Inr (c', Inl ret)
           | Inr (c', Inr out_node) \<Rightarrow> Inr (c', Inr (out_node, position))))"

section \<open>Positional arithmetic\<close>

text \<open>
  The bit-counting builtins of the compiler. \<^verbatim>\<open>__builtin_clzl\<close> counts the zero bits above
  the highest set bit and has no defined result at 0; \<^verbatim>\<open>__builtin_popcountl\<close> counts the set
  bits.
\<close>

fun leading_zeros_from :: "nat \<Rightarrow> u64 \<Rightarrow> nat" where
  "leading_zeros_from 0 w = 0"
| "leading_zeros_from (Suc n) w = (if bit w n then 0 else Suc (leading_zeros_from n w))"

fun popcount_below :: "nat \<Rightarrow> u64 \<Rightarrow> nat" where
  "popcount_below 0 w = 0"
| "popcount_below (Suc n) w = (if bit w n then 1 else 0) + popcount_below n w"

definition mmr_leading_zeros_u64 :: "u64 \<Rightarrow> fault + u64" where
  "mmr_leading_zeros_u64 v =
     (if v = 0 then Inl UndefinedClz else Inr (of_nat (leading_zeros_from 64 v)))"

definition mmr_count_zeros_u64 :: "u64 \<Rightarrow> u64" where
  "mmr_count_zeros_u64 v = 64 - of_nat (popcount_below 64 v)"

definition mmr_parent_offset :: "u32 \<Rightarrow> fault + u64" where
  "mmr_parent_offset height =
     (case shl_int 2 (unat height) of Inl f \<Rightarrow> Inl f | Inr v \<Rightarrow> Inr (of_int v))"

definition mmr_sibling_offset :: "u32 \<Rightarrow> fault + u64" where
  "mmr_sibling_offset height =
     (case shl_int 2 (unat height) of Inl f \<Rightarrow> Inl f | Inr v \<Rightarrow> Inr (of_int (v - 1)))"

definition mmr_all_ones :: "u64 \<Rightarrow> fault + bool" where
  "mmr_all_ones num =
     (if num = 0 then Inr False
      else case mmr_leading_zeros_u64 num of
        Inl f \<Rightarrow> Inl f
      | Inr lz \<Rightarrow> Inr (mmr_count_zeros_u64 num = lz))"

definition mmr_jump_left :: "u64 \<Rightarrow> fault + u64" where
  "mmr_jump_left pos =
     (case mmr_leading_zeros_u64 pos of
        Inl f \<Rightarrow> Inl f
      | Inr lz \<Rightarrow>
          let bit_length = 64 - lz in
          (case shl_u64 1 (unat (bit_length - 1)) of
             Inl f \<Rightarrow> Inl f
           | Inr most_significant_bits \<Rightarrow> Inr (pos - (most_significant_bits - 1))))"

subsection \<open>The leading zeros of a non-zero word\<close>

lemma bit_le_unat: "bit (w :: u64) k \<Longrightarrow> 2 ^ k \<le> unat w"
proof -
  assume "bit w k"
  then have "bit (unat w) k" by (simp add: bit_unsigned_iff)
  then have "odd (unat w div 2 ^ k)" by (simp add: bit_iff_odd)
  then have "unat w div 2 ^ k \<noteq> 0" by (metis even_zero)
  then show ?thesis
    by (metis div_less linorder_not_less)
qed

lemma unat_less_no_bit: "unat (w :: u64) < 2 ^ Suc n \<Longrightarrow> \<not> bit w n \<Longrightarrow> unat w < 2 ^ n"
proof -
  assume a: "unat w < 2 ^ Suc n" and b: "\<not> bit w n"
  from b have "\<not> bit (unat w) n" by (simp add: bit_unsigned_iff)
  then have e: "even (unat w div 2 ^ n)" by (simp add: bit_iff_odd)
  from a have "unat w div 2 ^ n < 2" by (simp add: less_mult_imp_div_less)
  with e have "unat w div 2 ^ n = 0" 
    by (metis One_nat_def less_2_cases odd_one)
  then show ?thesis
    by (simp add: div_eq_0_iff)
qed

lemma leading_zeros_from_le: "leading_zeros_from n w \<le> n"
  by (induction n) auto

lemma leading_zeros_from_lower:
  "leading_zeros_from n w < n \<Longrightarrow> 2 ^ (n - 1 - leading_zeros_from n w) \<le> unat w"
  by (induction n) (auto split: if_splits intro: bit_le_unat)

lemma leading_zeros_from_upper:
  "unat w < 2 ^ n \<Longrightarrow> unat w < 2 ^ (n - leading_zeros_from n w)"
proof (induction n)
  case 0
  then show ?case by simp
next
  case (Suc n)
  show ?case
  proof (cases "bit w n")
    case True
    with Suc.prems show ?thesis by simp
  next
    case False
    with Suc.prems have "unat w < 2 ^ n" by (rule unat_less_no_bit)
    then have "unat w < 2 ^ (n - leading_zeros_from n w)" by (rule Suc.IH)
    with False show ?thesis by simp
  qed
qed

lemma unat_u64_bound: "unat (w :: u64) < 2 ^ 64"
  using unsigned_less [of w] by simp

lemma clz_upper: "unat (w :: u64) < 2 ^ (64 - leading_zeros_from 64 w)"
  by (rule leading_zeros_from_upper) (rule unat_u64_bound)

lemma clz_less: "w \<noteq> 0 \<Longrightarrow> leading_zeros_from 64 w < 64"
proof (rule ccontr)
  assume nz: "w \<noteq> 0" and "\<not> leading_zeros_from 64 w < 64"
  then have "leading_zeros_from 64 w = 64"
    using leading_zeros_from_le [of 64 w] by simp
  with clz_upper [of w] have "unat w = 0" by simp
  with nz show False by (simp add: unat_eq_0)
qed

lemma clz_lower: "w \<noteq> 0 \<Longrightarrow> 2 ^ (63 - leading_zeros_from 64 w) \<le> unat w"
  using leading_zeros_from_lower [of 64 w] clz_less [of w] by simp

lemma all_ones_1: "mmr_all_ones 1 = Inr True"
  by (simp add: mmr_all_ones_def mmr_leading_zeros_u64_def mmr_count_zeros_u64_def eval_nat_numeral)

lemma clz_ge2: "2 \<le> unat w \<Longrightarrow> leading_zeros_from 64 w \<le> 62"
proof (rule ccontr)
  assume a: "2 \<le> unat w" and "\<not> leading_zeros_from 64 w \<le> 62"
  then have "64 - leading_zeros_from 64 w \<le> 1" by simp
  then have "(2::nat) ^ (64 - leading_zeros_from 64 w) \<le> 2 ^ 1"
    by (rule power_increasing) simp
  with clz_upper [of w] a show False by simp
qed



lemma unat_of_nat_u64: "n < 2 ^ 64 \<Longrightarrow> unat (of_nat n :: u64) = n"
  by (simp add: unat_of_nat)

lemma unat_pow2_u64:
  assumes "k < 64"
  shows "unat ((2::u64) ^ k) = 2 ^ k"
proof -
  have "(2::u64) ^ k = of_nat (2 ^ k)" by simp
  moreover have "(2::nat) ^ k < 2 ^ 64"
    by (rule power_strict_increasing) (use assms in simp_all)
  ultimately show ?thesis by (simp only: unat_of_nat_u64)
qed

lemma clz_shift_amount:
  assumes "lz < 64"
  shows "unat ((64 :: u64) - of_nat lz - 1) = 63 - lz"
proof -
  have "(64 :: u64) - of_nat lz - 1 = of_nat (63 - lz)"
    using assms by (simp add: of_nat_diff)
  moreover have "unat (of_nat (63 - lz) :: u64) = 63 - lz"
    by (rule unat_of_nat_u64) simp
  ultimately show ?thesis by simp
qed

lemma jump_left_eq:
  assumes "w \<noteq> 0"
  shows "mmr_jump_left w = Inr (w - (2 ^ (63 - leading_zeros_from 64 w) - 1))"
proof -
  have "leading_zeros_from 64 w < 64" by (rule clz_less [OF assms])
  then have "unat ((64 :: u64) - of_nat (leading_zeros_from 64 w) - 1) = 63 - leading_zeros_from 64 w"
    by (rule clz_shift_amount)
  then show ?thesis
    using assms
    by (simp add: mmr_jump_left_def mmr_leading_zeros_u64_def shl_u64_def Let_def)
qed

lemma jump_left_bounds:
  assumes ao: "mmr_all_ones w = Inr False" and jl: "mmr_jump_left w = Inr w'"
  shows "0 < unat w' \<and> unat w' < unat w"
proof -
  define k where "k = 63 - leading_zeros_from 64 w"
  from jl have nz: "w \<noteq> 0"
    by (auto simp: mmr_jump_left_def mmr_leading_zeros_u64_def)
  from ao have "w \<noteq> 1" using all_ones_1 by auto
  with nz have "unat w \<noteq> 0" "unat w \<noteq> 1"
    by (simp_all add: word_unat_eq_iff)
  then have "2 \<le> unat w" by simp
  then have k1: "1 \<le> k" "k < 64" using clz_ge2 [of w] by (simp_all add: k_def)
  have le: "2 ^ k \<le> unat w" unfolding k_def by (rule clz_lower [OF nz])
  have w': "w' = w - (2 ^ k - 1)"
    using jl jump_left_eq [OF nz] by (simp add: k_def)
  have "(2::nat) ^ 1 \<le> 2 ^ k" using k1 by (intro power_increasing) simp_all
  then have two: "(2::nat) \<le> 2 ^ k" by simp
  have p: "unat ((2::u64) ^ k) = 2 ^ k" by (rule unat_pow2_u64 [OF k1(2)])
  then have "(2::u64) ^ k \<noteq> 0" by (metis power_not_zero unsigned_0 zero_neq_numeral)
  then have u: "unat (2 ^ k - 1 :: u64) = 2 ^ k - 1"
    using p by (simp add: unat_minus_one)
  have "unat w' = unat w - unat (2 ^ k - 1 :: u64)"
    unfolding w' using le u by (intro unat_sub) (simp add: word_le_nat_alt)
  with u le two show ?thesis by simp
qed

lemma jump_left_decreases:
  "mmr_all_ones w = Inr False \<Longrightarrow> mmr_jump_left w = Inr w' \<Longrightarrow> unat w' < unat w"
  using jump_left_bounds by blast

function height_loop :: "u64 \<Rightarrow> fault + u64" where
  "height_loop pos =
     (case mmr_all_ones pos of
        Inl f \<Rightarrow> Inl f
      | Inr True \<Rightarrow> Inr pos
      | Inr False \<Rightarrow> (case mmr_jump_left pos of Inl f \<Rightarrow> Inl f | Inr pos' \<Rightarrow> height_loop pos'))"
  by pat_completeness auto
termination
  by (relation "measure unat") (auto intro: jump_left_decreases)

declare height_loop.simps [simp del]

text \<open>
  \<^verbatim>\<open>_mmr_pos_height_in_tree\<close>: the loop is \<open>height_loop\<close>, started at \<open>pos + 1\<close>; every
  jump to the left makes the position smaller, so the loop ends.
\<close>

definition mmr_pos_height_in_tree :: "u64 \<Rightarrow> fault + u32" where
  "mmr_pos_height_in_tree pos =
     (case height_loop (pos + 1) of
        Inl f \<Rightarrow> Inl f
      | Inr pos' \<Rightarrow>
          (case mmr_leading_zeros_u64 pos' of
             Inl f \<Rightarrow> Inl f
           | Inr lz \<Rightarrow> Inr (ucast (64 - lz - 1))))"

subsection \<open>Peaks\<close>

record mmr_peak_t =
  peak_pos :: u64
  peak_height :: u32
  peak_present :: bool

definition mmr_get_peak_pos_by_height :: "u32 \<Rightarrow> fault + u64" where
  "mmr_get_peak_pos_by_height height =
     (case shl_u64 1 (unat (height + 1)) of Inl f \<Rightarrow> Inl f | Inr v \<Rightarrow> Inr (v - 2))"

lemma get_peak_pos_by_height_defined:
  "mmr_get_peak_pos_by_height h = Inr p \<Longrightarrow> unat (h + 1) < 64"
  by (simp add: mmr_get_peak_pos_by_height_def shl_u64_def split: if_splits)

lemma unat_u32_succ: "unat (x :: u32) < 64 \<Longrightarrow> unat (x + 1) = unat x + 1"
  by (simp add: unat_word_ariths)

text \<open>
  The loop of \<^verbatim>\<open>_mmr_left_peak_height_pos\<close> over its three local variables. It stops
  at the latest when the shift of the next peak position leaves the 64 bits.
\<close>

function left_peak_loop :: "u64 \<Rightarrow> u32 \<Rightarrow> u64 \<Rightarrow> u64 \<Rightarrow> fault + (u32 \<times> u64 \<times> u64)" where
  "left_peak_loop mmr_size height prev_pos pos =
     (if pos < mmr_size then
        (case mmr_get_peak_pos_by_height (height + 1) of
           Inl f \<Rightarrow> Inl f
         | Inr pos' \<Rightarrow> left_peak_loop mmr_size (height + 1) pos pos')
      else Inr (height, prev_pos, pos))"
  by pat_completeness auto
termination
proof (relation "measure (\<lambda>(mmr_size, height, prev_pos, pos). 64 - unat (height + 2))")
  show "wf (measure (\<lambda>(mmr_size, height, prev_pos, pos). 64 - unat (height + 2)))"
    by simp
next
  fix mmr_size :: u64 and height :: u32 and prev_pos pos pos' :: u64
  assume "mmr_get_peak_pos_by_height (height + 1) = Inr pos'"
  then have "unat (height + 1 + 1) < 64" by (rule get_peak_pos_by_height_defined)
  moreover have e: "height + 1 + 1 = height + 2" by simp
  ultimately have b: "unat (height + 2) < 64" by (simp only: e)
  then have "unat (height + 2 + 1) = unat (height + 2) + 1" by (rule unat_u32_succ)
  moreover have "height + 2 + 1 = height + 1 + 2" by simp
  ultimately have "unat (height + 1 + 2) = unat (height + 2) + 1" by (simp only:)
  with b have "64 - unat (height + 1 + 2) < 64 - unat (height + 2)" by linarith
  then show "((mmr_size, height + 1, pos, pos'), (mmr_size, height, prev_pos, pos))
      \<in> measure (\<lambda>(mmr_size, height, prev_pos, pos). 64 - unat (height + 2))"
    by (simp only: in_measure prod.case)
qed

declare left_peak_loop.simps [simp del]

definition mmr_left_peak_height_pos :: "u64 \<Rightarrow> fault + mmr_peak_t" where
  "mmr_left_peak_height_pos mmr_size =
     (case mmr_get_peak_pos_by_height 1 of
        Inl f \<Rightarrow> Inl f
      | Inr pos0 \<Rightarrow>
          (case left_peak_loop mmr_size 1 0 pos0 of
             Inl f \<Rightarrow> Inl f
           | Inr (height, prev_pos, pos) \<Rightarrow>
               Inr \<lparr>peak_pos = prev_pos, peak_height = height - 1, peak_present = True\<rparr>))"

text \<open>
  The loop of \<^verbatim>\<open>_mmr_get_right_peak\<close> over \<open>height\<close> and \<open>pos\<close>: \<open>None\<close> when it
  leaves through \<^verbatim>\<open>height == 0\<close>, the height and position it ends with otherwise.
\<close>

function right_peak_loop :: "u64 \<Rightarrow> u32 \<Rightarrow> u64 \<Rightarrow> fault + (u32 \<times> u64) option" where
  "right_peak_loop mmr_size height pos =
     (if pos > mmr_size - 1 then
        (if height = 0 then Inr None
         else case mmr_parent_offset (height - 1) of
           Inl f \<Rightarrow> Inl f
         | Inr po \<Rightarrow> right_peak_loop mmr_size (height - 1) (pos - po))
      else Inr (Some (height, pos)))"
  by pat_completeness auto
termination
  by (relation "measure (\<lambda>(mmr_size, height, pos). unat height)")
     (auto simp: unat_minus_one word_unat_eq_iff)

declare right_peak_loop.simps [simp del]

text \<open>
  \<^verbatim>\<open>_mmr_get_right_peak\<close> updates the peak in place; the model returns the peak it leaves.
  When the loop runs off height 0 only \<^verbatim>\<open>present\<close> is cleared. The \<^verbatim>\<open>int\<close> it returns is
  \<^verbatim>\<open>present\<close> again and no caller reads it.
\<close>

definition mmr_get_right_peak :: "mmr_peak_t \<Rightarrow> u64 \<Rightarrow> fault + mmr_peak_t" where
  "mmr_get_right_peak peak mmr_size =
     (case mmr_sibling_offset (peak_height peak) of
        Inl f \<Rightarrow> Inl f
      | Inr so \<Rightarrow>
          (case right_peak_loop mmr_size (peak_height peak) (peak_pos peak + so) of
             Inl f \<Rightarrow> Inl f
           | Inr None \<Rightarrow> Inr (peak\<lparr>peak_present := False\<rparr>)
           | Inr (Some (height, pos)) \<Rightarrow>
               Inr \<lparr>peak_pos = pos, peak_height = height, peak_present = True\<rparr>))"

lemma shl_int_2:
  assumes "shl_int 2 n = Inr v"
  shows "n \<le> 29 \<and> v = 2 ^ (n + 1)"
proof -
  from assms have b: "(2::int) * 2 ^ n \<le> 2147483647" and v: "v = 2 * 2 ^ n"
    by (auto simp: shl_int_def split: if_splits)
  have "n \<le> 29"
  proof (rule ccontr)
    assume "\<not> n \<le> 29"
    then have "30 \<le> n" by simp
    then have "(2::int) ^ 30 \<le> 2 ^ n" by (intro power_increasing) simp_all
    with b show False by simp
  qed
  with v show ?thesis by simp
qed

lemma sibling_offset_eq:
  assumes "mmr_sibling_offset h = Inr so"
  shows "unat h \<le> 29 \<and> so = 2 ^ (unat h + 1) - 1"
proof -
  from assms obtain v where v: "shl_int 2 (unat h) = Inr v" and so: "so = of_int (v - 1)"
    by (auto simp: mmr_sibling_offset_def split: sum.splits)
  from shl_int_2 [OF v] so show ?thesis by simp
qed

lemma parent_offset_eq:
  assumes "mmr_parent_offset h = Inr po"
  shows "unat h \<le> 29 \<and> po = 2 ^ (unat h + 1)"
proof -
  from assms obtain v where v: "shl_int 2 (unat h) = Inr v" and so: "po = of_int v"
    by (auto simp: mmr_parent_offset_def split: sum.splits)
  from shl_int_2 [OF v] so show ?thesis by simp
qed

lemma right_peak_loop_height:
  "right_peak_loop m h p = Inr (Some (h', p')) \<Longrightarrow> unat h' \<le> unat h \<and> (h' = h \<longrightarrow> p' = p)"
proof (induction m h p rule: right_peak_loop.induct)
  case (1 m h p)
  note unfold = right_peak_loop.simps [of m h p]
  show ?case
  proof (cases "p > m - 1")
    case False
    with "1.prems" show ?thesis by (simp add: unfold)
  next
    case True
    with "1.prems" have hz: "h \<noteq> 0" by (auto simp: unfold split: if_splits)
    with True "1.prems" obtain po where po: "mmr_parent_offset (h - 1) = Inr po"
      and r: "right_peak_loop m (h - 1) (p - po) = Inr (Some (h', p'))"
      by (auto simp: unfold split: sum.splits)
    from "1.IH" [OF True hz po r] have "unat h' \<le> unat (h - 1)" by simp
    moreover have "unat (h - 1) < unat h" using hz by (simp add: unat_minus_one word_unat_eq_iff)
    ultimately show ?thesis by auto
  qed
qed

text \<open>
  The search for a peak in opcode 5 steps the cursor to the right until it is absent or at
  the wanted position. That it ends needs an argument: while the height stays the same, a
  step adds the odd number \<open>2 ^ (height + 1) - 1\<close> to the position, modulo \<open>2 ^ 64\<close>.
  An odd number has an inverse modulo \<open>2 ^ 64\<close>, so the number of such steps that
  separate the cursor from the wanted position is well defined and goes down by one.
\<close>

definition odd_inverse :: "nat \<Rightarrow> u64" where
  "odd_inverse n = - sum ((^) (2 ^ n)) {..63}"

lemma pow2_zero_u64: "64 \<le> k \<Longrightarrow> (2::u64) ^ k = 0"
  by simp

lemma odd_inverse:
  assumes "1 \<le> n"
  shows "((2::u64) ^ n - 1) * odd_inverse n = 1"
proof -
  have "(1 - (2::u64) ^ n) * sum ((^) (2 ^ n)) {..63} = 1 - (2 ^ n) ^ Suc 63"
    by (rule sum_gp_basic)
  moreover have "((2::u64) ^ n) ^ Suc 63 = 2 ^ (n * Suc 63)"
    by (simp only: power_mult)
  moreover have "(2::u64) ^ (n * Suc 63) = 0"
    by (rule pow2_zero_u64) (use assms in simp)
  ultimately have "(1 - (2::u64) ^ n) * sum ((^) (2 ^ n)) {..63} = 1" by simp
  moreover have "((2::u64) ^ n - 1) * odd_inverse n = (1 - (2::u64) ^ n) * sum ((^) (2 ^ n)) {..63}"
    by (simp add: odd_inverse_def algebra_simps)
  ultimately show ?thesis by simp
qed

lemma search_step_decreases:
  assumes n: "1 \<le> n" and ne: "target \<noteq> (pos :: u64)"
  shows "unat ((target - (pos + (2 ^ n - 1))) * odd_inverse n) < unat ((target - pos) * odd_inverse n)"
proof -
  define k where "k = (target - pos) * odd_inverse n"
  have inv: "((2::u64) ^ n - 1) * odd_inverse n = 1" by (rule odd_inverse [OF n])
  have "k * (2 ^ n - 1) = (target - pos) * ((2 ^ n - 1) * odd_inverse n)"
    by (simp add: k_def mult_ac)
  then have bk: "k * (2 ^ n - 1) = target - pos" by (simp add: inv)
  have "k \<noteq> 0"
  proof
    assume "k = 0"
    with bk have "target - pos = 0" by simp
    with ne show False by simp
  qed
  moreover have "(target - (pos + (2 ^ n - 1))) * odd_inverse n = k - (2 ^ n - 1) * odd_inverse n"
    by (simp add: k_def algebra_simps)
  then have "(target - (pos + (2 ^ n - 1))) * odd_inverse n = k - 1" by (simp add: inv)
  ultimately show ?thesis
    by (simp add: k_def [symmetric] unat_minus_one word_unat_eq_iff)
qed

lemma get_right_peak_cases:
  assumes "mmr_get_right_peak peak m = Inr peak'"
  obtains so where "mmr_sibling_offset (peak_height peak) = Inr so"
      and "right_peak_loop m (peak_height peak) (peak_pos peak + so) = Inr None"
      and "peak' = peak\<lparr>peak_present := False\<rparr>"
  | so h p where "mmr_sibling_offset (peak_height peak) = Inr so"
      and "right_peak_loop m (peak_height peak) (peak_pos peak + so) = Inr (Some (h, p))"
      and "peak' = \<lparr>peak_pos = p, peak_height = h, peak_present = True\<rparr>"
proof (cases "mmr_sibling_offset (peak_height peak)")
  case (Inl f)
  with assms show ?thesis by (simp add: mmr_get_right_peak_def)
next
  case so: (Inr so)
  show ?thesis
  proof (cases "right_peak_loop m (peak_height peak) (peak_pos peak + so)")
    case (Inl f)
    with assms so show ?thesis by (simp add: mmr_get_right_peak_def)
  next
    case (Inr r)
    show ?thesis
    proof (cases r)
      case None
      with assms so Inr that(1) show ?thesis by (simp add: mmr_get_right_peak_def)
    next
      case (Some hp)
      obtain h p where hp: "hp = (h, p)" by (cases hp)
      with assms so Inr Some that(2) show ?thesis by (simp add: mmr_get_right_peak_def)
    qed
  qed
qed

lemma get_right_peak_present:
  assumes r: "mmr_get_right_peak peak m = Inr peak'" and pr: "peak_present peak'"
  shows "unat (peak_height peak') \<le> unat (peak_height peak) \<and>
         (peak_height peak' = peak_height peak \<longrightarrow>
            peak_pos peak' = peak_pos peak + (2 ^ (unat (peak_height peak) + 1) - 1))"
  using r
proof (cases rule: get_right_peak_cases)
  case (1 so)
  with pr show ?thesis by simp
next
  case (2 so h p)
  from sibling_offset_eq [OF 2(1)] have so: "so = 2 ^ (unat (peak_height peak) + 1) - 1"
    by simp
  from right_peak_loop_height [OF 2(2)]
  have "unat h \<le> unat (peak_height peak)" and "h = peak_height peak \<longrightarrow> p = peak_pos peak + so"
    by simp_all
  then show ?thesis unfolding 2(3) so by simp
qed

definition search_measure :: "u64 \<Rightarrow> mmr_peak_t \<Rightarrow> nat \<times> nat \<times> nat" where
  "search_measure target peak =
     (if peak_present peak then 1 else 0, unat (peak_height peak),
      unat ((target - peak_pos peak) * odd_inverse (unat (peak_height peak) + 1)))"

lemma search_measure_decreases:
  assumes pr: "peak_present peak" and ne: "target \<noteq> peak_pos peak"
    and r: "mmr_get_right_peak peak m = Inr peak'"
  shows "(search_measure target peak', search_measure target peak)
           \<in> less_than <*lex*> less_than <*lex*> less_than"
proof (cases "peak_present peak'")
  case False
  with pr show ?thesis by (simp add: search_measure_def)
next
  case True
  from get_right_peak_present [OF r True]
  have h: "unat (peak_height peak') \<le> unat (peak_height peak)"
    and e: "peak_height peak' = peak_height peak \<Longrightarrow>
            peak_pos peak' = peak_pos peak + (2 ^ (unat (peak_height peak) + 1) - 1)"
    by simp_all
  show ?thesis
  proof (cases "peak_height peak' = peak_height peak")
    case False
    with h have "unat (peak_height peak') < unat (peak_height peak)"
      by (simp add: word_unat_eq_iff)
    with pr True show ?thesis by (simp add: search_measure_def)
  next
    case same: True
    have "unat ((target - (peak_pos peak + (2 ^ (unat (peak_height peak) + 1) - 1)))
                  * odd_inverse (unat (peak_height peak) + 1))
          < unat ((target - peak_pos peak) * odd_inverse (unat (peak_height peak) + 1))"
      by (rule search_step_decreases) (use ne in simp_all)
    with pr True same e [OF same] show ?thesis by (simp add: search_measure_def)
  qed
qed

text \<open>
  The loop of opcode 5:
  \<^verbatim>\<open>while ((next_peak_info.present != 0) && (pos != next_peak_info.pos))\<close>.
\<close>

function peak_search :: "u64 \<Rightarrow> u64 \<Rightarrow> mmr_peak_t \<Rightarrow> fault + mmr_peak_t" where
  "peak_search mmr_size pos peak =
     (if peak_present peak \<and> pos \<noteq> peak_pos peak then
        (case mmr_get_right_peak peak mmr_size of
           Inl f \<Rightarrow> Inl f
         | Inr peak' \<Rightarrow> peak_search mmr_size pos peak')
      else Inr peak)"
  by pat_completeness auto
termination
proof (relation "inv_image (less_than <*lex*> less_than <*lex*> less_than)
                   (\<lambda>(mmr_size, pos, peak). search_measure pos peak)")
  show "wf (inv_image (less_than <*lex*> less_than <*lex*> less_than)
              (\<lambda>(mmr_size, pos, peak). search_measure pos peak))"
    by (intro wf_inv_image wf_lex_prod wf_less_than)
next
  fix mmr_size pos :: u64 and peak peak' :: mmr_peak_t
  assume "peak_present peak \<and> pos \<noteq> peak_pos peak"
    and "mmr_get_right_peak peak mmr_size = Inr peak'"
  then have "(search_measure pos peak', search_measure pos peak)
           \<in> less_than <*lex*> less_than <*lex*> less_than"
    by (intro search_measure_decreases) simp_all
  then show "((mmr_size, pos, peak'), (mmr_size, pos, peak))
      \<in> inv_image (less_than <*lex*> less_than <*lex*> less_than)
           (\<lambda>(mmr_size, pos, peak). search_measure pos peak)"
    by simp
qed

declare peak_search.simps [simp del]

section \<open>The verifier\<close>

text \<open>\<^verbatim>\<open>_mmr_stack_value_t\<close>, an entry of the stack.\<close>

record mmr_stack_value_t =
  sv_t :: u8
  sv_node :: mmr_node_t
  sv_position :: u64
  sv_height :: u32

text \<open>
  The local variables of \<^verbatim>\<open>mmr_verify\<close> and the two reader contexts. The stack is the
  array \<^verbatim>\<open>stack[MMR_STACK_SIZE]\<close>, a map from indices to entries, read and written through
  \<open>stack_get\<close> and \<open>stack_set\<close>, which fault outside the array.
\<close>

record mmr_state =
  stack :: "nat \<Rightarrow> mmr_stack_value_t"
  stack_top :: u32
  next_peak_info :: mmr_peak_t
  last_leaf_pos :: u64
  has_last_leaf :: bool
  command :: u8
  proof_reader_context :: mmr_default_buffer_reader_t
  leaf_reader_context :: mmr_default_buffer_reader_t

definition stack_get :: "(nat \<Rightarrow> mmr_stack_value_t) \<Rightarrow> u32 \<Rightarrow> fault + mmr_stack_value_t" where
  "stack_get st i = (if unat i < MMR_STACK_SIZE then Inr (st (unat i)) else Inl StackOutOfBounds)"

definition stack_set ::
  "(nat \<Rightarrow> mmr_stack_value_t) \<Rightarrow> u32 \<Rightarrow> mmr_stack_value_t \<Rightarrow> fault + (nat \<Rightarrow> mmr_stack_value_t)" where
  "stack_set st i v = (if unat i < MMR_STACK_SIZE then Inr (st(unat i := v)) else Inl StackOutOfBounds)"

text \<open>
  What one pass through the body of \<^verbatim>\<open>while (1)\<close> does: go on with a new state, leave the
  loop through \<^verbatim>\<open>break\<close>, leave the function through \<^verbatim>\<open>return\<close>, or run into
  behaviour that C does not define.
\<close>

datatype flow = Next mmr_state | Break mmr_state | Return int | Undefined fault

text \<open>\<^verbatim>\<open>case 1\<close>: push a leaf.\<close>

definition mmr_verify_case_1 :: "u64 \<Rightarrow> mmr_state \<Rightarrow> flow" where
  "mmr_verify_case_1 mmr_size s =
     (if unat (stack_top s) \<ge> MMR_STACK_SIZE then Return ERROR_INVALID_STACK
      else case mmr_default_leaf_iter_read (leaf_reader_context s) of
        Inl f \<Rightarrow> Undefined f
      | Inr (c, Inl leaf_success) \<Rightarrow> Return leaf_success
      | Inr (c, Inr (leaf_node, position)) \<Rightarrow>
          if has_last_leaf s \<and> last_leaf_pos s \<ge> position then Return ERROR_INVALID_PROOF
          else if position \<ge> mmr_size then Return ERROR_INVALID_PROOF
          else (case mmr_pos_height_in_tree position of
                  Inl f \<Rightarrow> Undefined f
                | Inr h \<Rightarrow>
                    if h > 0 then Return ERROR_INVALID_PROOF
                    else (case stack_set (stack s) (stack_top s)
                                 \<lparr>sv_t = MMR_STACK_NODE, sv_node = leaf_node,
                                  sv_position = position, sv_height = 0\<rparr> of
                            Inl f \<Rightarrow> Undefined f
                          | Inr st \<Rightarrow>
                              Next (s\<lparr>stack := st, stack_top := stack_top s + 1,
                                      last_leaf_pos := position, has_last_leaf := True,
                                      leaf_reader_context := c\<rparr>))))"

text \<open>\<^verbatim>\<open>case 2\<close>: push a node of the proof.\<close>

definition mmr_verify_case_2 :: "mmr_state \<Rightarrow> flow" where
  "mmr_verify_case_2 s =
     (if unat (stack_top s) \<ge> MMR_STACK_SIZE then Return ERROR_INVALID_STACK
      else case mmr_default_buffer_read_node (proof_reader_context s) of
        Inl f \<Rightarrow> Undefined f
      | Inr (c, Inl ret) \<Rightarrow> Return ret
      | Inr (c, Inr proof_node) \<Rightarrow>
          (case stack_set (stack s) (stack_top s)
                  \<lparr>sv_t = MMR_STACK_PROOF, sv_node = proof_node,
                   sv_position = 0, sv_height = 0\<rparr> of
             Inl f \<Rightarrow> Undefined f
           | Inr st \<Rightarrow>
               Next (s\<lparr>stack := st, stack_top := stack_top s + 1,
                       proof_reader_context := c\<rparr>)))"

text \<open>
  \<^verbatim>\<open>case 3\<close>: merge the two entries on top. \<open>merge_positions\<close> is the computation of
  \<^verbatim>\<open>sib_pos\<close> and \<^verbatim>\<open>parent_pos\<close>; \<^verbatim>\<open>_mmr_parent_offset\<close> is called on the second branch only.
\<close>

definition merge_positions :: "u64 \<Rightarrow> u32 \<Rightarrow> u32 \<Rightarrow> u64 \<Rightarrow> fault + (u64 \<times> u64)" where
  "merge_positions pos height next_height sibling_offset =
     (if next_height > height then Inr (pos - sibling_offset, pos + 1)
      else case mmr_parent_offset height of
        Inl f \<Rightarrow> Inl f
      | Inr po \<Rightarrow> Inr (pos + sibling_offset, pos + po))"

definition mmr_verify_case_3 :: "mmr_hooks \<Rightarrow> mmr_state \<Rightarrow> flow" where
  "mmr_verify_case_3 M s =
     (if stack_top s < 2 then Return ERROR_INVALID_STACK
      else
        let lhs_index = stack_top s - 2; rhs_index = stack_top s - 1 in
        case stack_get (stack s) lhs_index of
          Inl f \<Rightarrow> Undefined f
        | Inr lhs \<Rightarrow>
        (case stack_get (stack s) rhs_index of
          Inl f \<Rightarrow> Undefined f
        | Inr rhs \<Rightarrow>
        let (pos, height, next_pos, next_t, item, sibling_item) =
              (if sv_t lhs = MMR_STACK_PROOF
               then (sv_position rhs, sv_height rhs, sv_position lhs, sv_t lhs,
                     sv_node rhs, sv_node lhs)
               else (sv_position lhs, sv_height lhs, sv_position rhs, sv_t rhs,
                     sv_node lhs, sv_node rhs)) in
        (case mmr_pos_height_in_tree (pos + 1) of
          Inl f \<Rightarrow> Undefined f
        | Inr next_height \<Rightarrow>
        (case mmr_sibling_offset height of
          Inl f \<Rightarrow> Undefined f
        | Inr sibling_offset \<Rightarrow>
        (case merge_positions pos height next_height sibling_offset of
          Inl f \<Rightarrow> Undefined f
        | Inr (sib_pos, parent_pos) \<Rightarrow>
            if sib_pos \<noteq> next_pos \<and> next_t \<noteq> MMR_STACK_PROOF then Return ERROR_INVALID_PROOF
            else
              let merged = (if next_height > height then MMR_MERGE M sibling_item item
                            else MMR_MERGE M item sibling_item) in
              (case stack_set (stack s) (stack_top s - 2)
                      \<lparr>sv_t = MMR_STACK_NODE, sv_node = merged,
                       sv_position = parent_pos, sv_height = height + 1\<rparr> of
                 Inl f \<Rightarrow> Undefined f
               | Inr st \<Rightarrow> Next (s\<lparr>stack := st, stack_top := stack_top s - 1\<rparr>)))))))"

text \<open>\<^verbatim>\<open>case 4\<close>: merge two peaks.\<close>

definition mmr_verify_case_4 :: "mmr_hooks \<Rightarrow> mmr_state \<Rightarrow> flow" where
  "mmr_verify_case_4 M s =
     (if stack_top s < 2 then Return ERROR_INVALID_STACK
      else
        let top_index = stack_top s - 1; bottom_index = stack_top s - 2 in
        case stack_get (stack s) top_index of
          Inl f \<Rightarrow> Undefined f
        | Inr top_entry \<Rightarrow>
            if sv_t top_entry \<noteq> MMR_STACK_PEAK then Return ERROR_INVALID_PROOF
            else (case stack_get (stack s) bottom_index of
              Inl f \<Rightarrow> Undefined f
            | Inr bottom_entry \<Rightarrow>
                if sv_t bottom_entry \<noteq> MMR_STACK_PEAK then Return ERROR_INVALID_PROOF
                else (case stack_set (stack s) (stack_top s - 2)
                             (bottom_entry\<lparr>sv_node := MMR_MERGE_PEAKS M (sv_node top_entry) (sv_node bottom_entry),
                                     sv_height := 0\<rparr>) of
                        Inl f \<Rightarrow> Undefined f
                      | Inr st \<Rightarrow> Next (s\<lparr>stack := st, stack_top := stack_top s - 1\<rparr>))))"

text \<open>\<^verbatim>\<open>case 5\<close>: mark the entry on top as a peak.\<close>

definition mmr_verify_case_5 :: "u64 \<Rightarrow> mmr_state \<Rightarrow> flow" where
  "mmr_verify_case_5 mmr_size s =
     (if stack_top s < 1 then Return ERROR_INVALID_STACK
      else case stack_get (stack s) (stack_top s - 1) of
        Inl f \<Rightarrow> Undefined f
      | Inr top_entry \<Rightarrow>
          let pos = sv_position top_entry in
          if sv_t top_entry \<noteq> MMR_STACK_PROOF then
            (case peak_search mmr_size pos (next_peak_info s) of
               Inl f \<Rightarrow> Undefined f
             | Inr peak \<Rightarrow>
                 if \<not> peak_present peak then Return ERROR_INVALID_PROOF
                 else (case mmr_get_right_peak peak mmr_size of
                   Inl f \<Rightarrow> Undefined f
                 | Inr peak' \<Rightarrow>
                     (case stack_set (stack s) (stack_top s - 1) (top_entry\<lparr>sv_t := MMR_STACK_PEAK\<rparr>) of
                        Inl f \<Rightarrow> Undefined f
                      | Inr st \<Rightarrow> Next (s\<lparr>stack := st, next_peak_info := peak'\<rparr>))))
          else
            (case stack_set (stack s) (stack_top s - 1) (top_entry\<lparr>sv_t := MMR_STACK_PEAK\<rparr>) of
               Inl f \<Rightarrow> Undefined f
             | Inr st \<Rightarrow> Next (s\<lparr>stack := st\<rparr>)))"

text \<open>The \<^verbatim>\<open>switch (command)\<close>.\<close>

definition mmr_verify_switch :: "mmr_hooks \<Rightarrow> u64 \<Rightarrow> mmr_state \<Rightarrow> flow" where
  "mmr_verify_switch M mmr_size s =
     (if command s = 1 then mmr_verify_case_1 mmr_size s
      else if command s = 2 then mmr_verify_case_2 s
      else if command s = 3 then mmr_verify_case_3 M s
      else if command s = 4 then mmr_verify_case_4 M s
      else if command s = 5 then mmr_verify_case_5 mmr_size s
      else Return ERROR_INVALID_COMMAND)"

text \<open>
  The body of the loop: read a command, leave on \<^verbatim>\<open>ERROR_NO_MORE_COMMANDS\<close>, return any
  other code that is not 0, and dispatch otherwise. A reader that returns an error leaves
  \<^verbatim>\<open>command\<close> as it was.
\<close>

definition mmr_verify_iteration :: "mmr_hooks \<Rightarrow> u64 \<Rightarrow> mmr_state \<Rightarrow> flow" where
  "mmr_verify_iteration M mmr_size s =
     (case mmr_default_command_read (proof_reader_context s) of
        Inl f \<Rightarrow> Undefined f
      | Inr (c, Inl ret) \<Rightarrow>
          if ret = ERROR_NO_MORE_COMMANDS then Break (s\<lparr>proof_reader_context := c\<rparr>)
          else if ret \<noteq> 0 then Return ret
          else mmr_verify_switch M mmr_size (s\<lparr>proof_reader_context := c\<rparr>)
      | Inr (c, Inr out_command) \<Rightarrow>
          mmr_verify_switch M mmr_size (s\<lparr>proof_reader_context := c, command := out_command\<rparr>))"

subsection \<open>Progress of the readers\<close>

text \<open>The bytes between the cursor and the declared end of a buffer.\<close>

definition remaining :: "mmr_default_buffer_reader_t \<Rightarrow> nat" where
  "remaining c = unat (buffer_length c - index c)"

lemma read_bytes_1:
  assumes "read_bytes buf i 1 = Inr bs"
  shows "bs = [buf ! i] \<and> i < length buf"
proof -
  from assms have l: "i < length buf" and bs: "bs = take 1 (drop i buf)"
    by (auto simp: read_bytes_def split: if_splits)
  from l have "drop i buf = buf ! i # drop (Suc i) buf" by (simp add: Cons_nth_drop_Suc)
  with bs l show ?thesis by simp
qed

lemma command_read_cases:
  assumes "mmr_default_command_read c = Inr (c', r)"
  obtains "buffer_length c \<le> index c" and "c' = c" and "r = Inl ERROR_NO_MORE_COMMANDS"
  | "index c < buffer_length c" and "c' = c\<lparr>index := index c + 1\<rparr>"
      and "r = Inr (buffer c ! unat (index c))" and "unat (index c) < length (buffer c)"
proof (cases "buffer_length c \<le> index c")
  case True
  then have "mmr_default_command_read c = Inr (c, Inl ERROR_NO_MORE_COMMANDS)"
    by (simp add: mmr_default_command_read_def)
  with assms have "c' = c" "r = Inl ERROR_NO_MORE_COMMANDS" by simp_all
  with True that(1) show ?thesis by blast
next
  case False
  with assms obtain bs where bs: "read_bytes (buffer c) (unat (index c)) 1 = Inr bs"
    by (auto simp: mmr_default_command_read_def split: sum.splits)
  with False have "mmr_default_command_read c
      = Inr (c\<lparr>index := index c + 1\<rparr>, Inr (of_nat (le_value bs)))"
    by (simp add: mmr_default_command_read_def)
  with assms have c': "c' = c\<lparr>index := index c + 1\<rparr>" and r: "r = Inr (of_nat (le_value bs))"
    by simp_all
  from read_bytes_1 [OF bs] r have "r = Inr (buffer c ! unat (index c))"
    and "unat (index c) < length (buffer c)" by simp_all
  with False c' that(2) show ?thesis by simp
qed

lemma read_node_cases:
  assumes "mmr_default_buffer_read_node c = Inr (c', r)"
  obtains "c' = c" and "r = Inl ERROR_NODE_EOF"
  | len :: u16 and n where "2 \<le> buffer_length c - index c"
      and "ucast len \<le> buffer_length c - index c - 2"
      and "c' = c\<lparr>index := index c + (2 + ucast len)\<rparr>" and "r = Inr n"
proof (cases "buffer_length c - index c < 2")
  case True
  then have "mmr_default_buffer_read_node c = Inr (c, Inl ERROR_NODE_EOF)"
    by (simp add: mmr_default_buffer_read_node_def)
  with assms have "c' = c" "r = Inl ERROR_NODE_EOF" by simp_all
  with that(1) show ?thesis by blast
next
  case False
  with assms obtain bs where bs: "read_bytes (buffer c) (unat (index c)) 2 = Inr bs"
    by (auto simp: mmr_default_buffer_read_node_def split: sum.splits)
  define len :: u16 where "len = of_nat (le_value bs)"
  show ?thesis
  proof (cases "buffer_length c - index c - 2 < ucast len")
    case True
    with False bs have "mmr_default_buffer_read_node c = Inr (c, Inl ERROR_NODE_EOF)"
      by (simp add: mmr_default_buffer_read_node_def len_def)
    with assms have "c' = c" "r = Inl ERROR_NODE_EOF" by simp_all
    with that(1) show ?thesis by blast
  next
    case nt: False
    with False bs have "\<exists>n. mmr_default_buffer_read_node c
        = Inr (c\<lparr>index := index c + (2 + ucast len)\<rparr>, Inr n)"
      by (simp add: mmr_default_buffer_read_node_def len_def Let_def)
    with assms have "c' = c\<lparr>index := index c + (2 + ucast len)\<rparr>" "\<exists>n. r = Inr n"
      by auto
    moreover from False have "2 \<le> buffer_length c - index c" by (simp add: not_less)
    moreover from nt have "ucast len \<le> buffer_length c - index c - 2" by (simp add: not_less)
    ultimately show ?thesis using that(2) [of len] by blast
  qed
qed

lemma remaining_command:
  assumes "index c < buffer_length c"
  shows "remaining (c\<lparr>index := index c + 1\<rparr>) < remaining c"
proof -
  have nz: "buffer_length c - index c \<noteq> 0" using assms by simp
  have "buffer_length c - (index c + 1) = buffer_length c - index c - 1" by simp
  moreover have "unat (buffer_length c - index c - 1) = unat (buffer_length c - index c) - 1"
    using nz by (rule unat_minus_one)
  ultimately have "unat (buffer_length c - (index c + 1)) = unat (buffer_length c - index c) - 1"
    by (simp only:)
  moreover have "unat (buffer_length c - index c) \<noteq> 0" using nz by (simp add: word_unat_eq_iff)
  ultimately show ?thesis by (simp add: remaining_def)
qed

lemma remaining_node:
  assumes a: "2 \<le> buffer_length c - index c" and b: "ucast (len::u16) \<le> buffer_length c - index c - 2"
  shows "remaining (c\<lparr>index := index c + (2 + ucast len)\<rparr>) \<le> remaining c"
proof -
  define r where "r = buffer_length c - index c"
  have e: "buffer_length c - (index c + (2 + ucast len)) = r - 2 - ucast len"
    by (simp add: r_def)
  have "unat (r - 2 - ucast len) = unat (r - 2) - unat (ucast len :: u32)"
    using b unfolding r_def by (rule unat_sub)
  moreover have "unat (r - 2) = unat r - unat (2 :: u32)"
    using a unfolding r_def by (rule unat_sub)
  ultimately have "unat (r - 2 - ucast len) \<le> unat r" by simp
  then show ?thesis by (simp add: remaining_def e) (simp add: r_def)
qed

subsection \<open>The loop ends\<close>

text \<open>
  Every pass that goes on has read a command, so the cursor of the proof reader has moved
  towards the end of the buffer: the loop of \<^verbatim>\<open>mmr_verify\<close> ends on every input.
\<close>

lemma sum_Undefined_NextE:
  assumes "case_sum Undefined k m = Next s'"
  obtains v where "m = Inr v" and "k v = Next s'"
  using assms by (cases m) auto

lemma sum_Return_NextE:
  assumes "case_sum Return k r = Next s'"
  obtains v where "r = Inr v" and "k v = Next s'"
  using assms by (cases r) auto

lemmas NextE = sum_Undefined_NextE sum_Return_NextE

lemma case_1_proof_ctx:
  "mmr_verify_case_1 sz s = Next s' \<Longrightarrow> proof_reader_context s' = proof_reader_context s"
  by (auto simp: mmr_verify_case_1_def stack_set_def elim!: NextE split: if_splits prod.splits)


lemma case_2_proof_ctx:
  "mmr_verify_case_2 s = Next s' \<Longrightarrow>
     \<exists>c. mmr_default_buffer_read_node (proof_reader_context s) = Inr (c, Inr (sv_node (stack s' (unat (stack_top s)))))
       \<and> proof_reader_context s' = c"
  by (auto simp: mmr_verify_case_2_def stack_set_def elim!: NextE split: if_splits prod.splits)

lemma case_4_proof_ctx:
  "mmr_verify_case_4 M s = Next s' \<Longrightarrow> proof_reader_context s' = proof_reader_context s"
  by (auto simp: mmr_verify_case_4_def stack_set_def Let_def elim!: NextE split: if_splits prod.splits)

lemma case_5_proof_ctx:
  "mmr_verify_case_5 sz s = Next s' \<Longrightarrow> proof_reader_context s' = proof_reader_context s"
  by (auto simp: mmr_verify_case_5_def stack_set_def Let_def elim!: NextE split: if_splits prod.splits)


lemma case_3_proof_ctx:
  "mmr_verify_case_3 M s = Next s' \<Longrightarrow> proof_reader_context s' = proof_reader_context s"
  by (auto simp: mmr_verify_case_3_def stack_set_def Let_def elim!: NextE split: if_splits prod.splits)


lemma case_2_remaining:
  assumes "mmr_verify_case_2 s = Next s'"
  shows "remaining (proof_reader_context s') \<le> remaining (proof_reader_context s)"
proof -
  from case_2_proof_ctx [OF assms] obtain n
    where r: "mmr_default_buffer_read_node (proof_reader_context s) = Inr (proof_reader_context s', Inr n)"
    by blast
  from r show ?thesis
  proof (cases rule: read_node_cases)
    case 1
    then show ?thesis by simp
  next
    case (2 len n)
    with remaining_node [of "proof_reader_context s" len] show ?thesis by simp
  qed
qed

lemma switch_remaining:
  assumes "mmr_verify_switch M sz s = Next s'"
  shows "remaining (proof_reader_context s') \<le> remaining (proof_reader_context s)"
  using assms case_1_proof_ctx [of sz s s'] case_2_remaining [of s s'] case_3_proof_ctx [of M s s']
    case_4_proof_ctx [of M s s'] case_5_proof_ctx [of sz s s']
  by (simp add: mmr_verify_switch_def split: if_splits)

lemma iteration_Next:
  assumes "mmr_verify_iteration M sz s = Next s'"
  shows "index (proof_reader_context s) < buffer_length (proof_reader_context s) \<and>
         unat (index (proof_reader_context s)) < length (buffer (proof_reader_context s)) \<and>
         mmr_verify_switch M sz
           (s\<lparr>proof_reader_context := (proof_reader_context s)\<lparr>index := index (proof_reader_context s) + 1\<rparr>,
              command := buffer (proof_reader_context s) ! unat (index (proof_reader_context s))\<rparr>) = Next s'"
proof -
  from assms obtain c r where cr: "mmr_default_command_read (proof_reader_context s) = Inr (c, r)"
    by (auto simp: mmr_verify_iteration_def elim!: NextE)
  from cr show ?thesis
  proof (cases rule: command_read_cases)
    case 1
    with assms cr show ?thesis by (simp add: mmr_verify_iteration_def)
  next
    case 2
    with assms cr show ?thesis by (simp add: mmr_verify_iteration_def)
  qed
qed

lemma iteration_remaining:
  assumes "mmr_verify_iteration M sz s = Next s'"
  shows "remaining (proof_reader_context s') < remaining (proof_reader_context s)"
proof -
  from iteration_Next [OF assms]
  have lt: "index (proof_reader_context s) < buffer_length (proof_reader_context s)"
    and sw: "mmr_verify_switch M sz
           (s\<lparr>proof_reader_context := (proof_reader_context s)\<lparr>index := index (proof_reader_context s) + 1\<rparr>,
              command := buffer (proof_reader_context s) ! unat (index (proof_reader_context s))\<rparr>) = Next s'"
    by simp_all
  from switch_remaining [OF sw] remaining_command [OF lt] show ?thesis by simp
qed

text \<open>How the loop is left: through \<^verbatim>\<open>break\<close>, through a \<^verbatim>\<open>return\<close>, or undefined.\<close>

datatype loop_exit = Broke mmr_state | Returned int | Faulted fault

function mmr_verify_loop :: "mmr_hooks \<Rightarrow> u64 \<Rightarrow> mmr_state \<Rightarrow> loop_exit" where
  "mmr_verify_loop M mmr_size s =
     (case mmr_verify_iteration M mmr_size s of
        Next s' \<Rightarrow> mmr_verify_loop M mmr_size s'
      | Break s' \<Rightarrow> Broke s'
      | Return ret \<Rightarrow> Returned ret
      | Undefined f \<Rightarrow> Faulted f)"
  by pat_completeness auto
termination
  by (relation "measure (\<lambda>(M, mmr_size, s). remaining (proof_reader_context s))")
     (auto intro: iteration_remaining)

declare mmr_verify_loop.simps [simp del]

text \<open>
  The state in which \<^verbatim>\<open>mmr_verify\<close> enters its loop. The array \<^verbatim>\<open>stack\<close> is not
  initialised: \<open>stack0\<close> is whatever it holds.
\<close>

definition mmr_verify_init ::
  "(nat \<Rightarrow> mmr_stack_value_t) \<Rightarrow> mmr_peak_t \<Rightarrow> mmr_default_buffer_reader_t
     \<Rightarrow> mmr_default_buffer_reader_t \<Rightarrow> mmr_state" where
  "mmr_verify_init stack0 peak proof_ctx leaf_ctx =
     \<lparr>stack = stack0, stack_top = 0, next_peak_info = peak, last_leaf_pos = 0,
      has_last_leaf = False, command = 0xFF,
      proof_reader_context = proof_ctx, leaf_reader_context = leaf_ctx\<rparr>"

text \<open>The checks after the loop.\<close>

definition mmr_verify_finish :: "mmr_hooks \<Rightarrow> u8 list \<Rightarrow> u32 \<Rightarrow> mmr_state \<Rightarrow> fault + int" where
  "mmr_verify_finish M root root_length s =
     (if stack_top s \<noteq> 1 then Inr ERROR_INVALID_PROOF
      else case mmr_default_leaf_iter_read (leaf_reader_context s) of
        Inl f \<Rightarrow> Inl f
      | Inr (c, probe) \<Rightarrow>
          if (case probe of Inl ret \<Rightarrow> ret | Inr dummy \<Rightarrow> 0) = 0 then Inr ERROR_INVALID_PROOF
          else (case stack_get (stack s) 0 of
                  Inl f \<Rightarrow> Inl f
                | Inr e \<Rightarrow>
                    if root_length \<noteq> node_length (sv_node e)
                       \<or> MMR_MEMCMP M root (mmr_node_value (sv_node e)) root_length \<noteq> 0
                    then Inr ERROR_INVALID_PROOF
                    else Inr 0))"

text \<open>
  \<^verbatim>\<open>mmr_verify\<close>. The left peak is computed before \<^verbatim>\<open>mmr_size\<close> is compared with 0.
  The result is the \<^verbatim>\<open>int\<close> returned, or the fault that the run meets.
\<close>

definition mmr_verify ::
  "mmr_hooks \<Rightarrow> (nat \<Rightarrow> mmr_stack_value_t) \<Rightarrow> u8 list \<Rightarrow> u32 \<Rightarrow> u64
     \<Rightarrow> mmr_default_buffer_reader_t \<Rightarrow> mmr_default_buffer_reader_t \<Rightarrow> fault + int" where
  "mmr_verify M stack0 root root_length mmr_size proof_ctx leaf_ctx =
     (case mmr_left_peak_height_pos mmr_size of
        Inl f \<Rightarrow> Inl f
      | Inr peak \<Rightarrow>
          if mmr_size = 0 then Inr ERROR_INVALID_PROOF
          else (case mmr_verify_loop M mmr_size (mmr_verify_init stack0 peak proof_ctx leaf_ctx) of
                  Faulted f \<Rightarrow> Inl f
                | Returned ret \<Rightarrow> Inr ret
                | Broke s \<Rightarrow> mmr_verify_finish M root root_length s))"

text \<open>\<^verbatim>\<open>run_mmr_verify\<close> of \<^verbatim>\<open>rust-tests/mmr.c\<close>: both readers start at offset 0.\<close>

definition run_mmr_verify ::
  "mmr_hooks \<Rightarrow> (nat \<Rightarrow> mmr_stack_value_t) \<Rightarrow> u8 list \<Rightarrow> u32 \<Rightarrow> u64
     \<Rightarrow> u8 list \<Rightarrow> u32 \<Rightarrow> u8 list \<Rightarrow> u32 \<Rightarrow> fault + int" where
  "run_mmr_verify M stack0 root root_length mmr_size proof proof_length leaves leaves_length =
     mmr_verify M stack0 root root_length mmr_size
       (mmr_default_buffer_reader_init proof proof_length)
       (mmr_default_buffer_reader_init leaves leaves_length)"

text \<open>
  The states that a run passes through at the head of the loop: the one it starts with
  and every state that a pass of the loop goes on with.
\<close>

inductive reachable :: "mmr_hooks \<Rightarrow> u64 \<Rightarrow> mmr_state \<Rightarrow> mmr_state \<Rightarrow> bool"
  for M :: mmr_hooks and mmr_size :: u64 and s0 :: mmr_state where
  reachable_start: "reachable M mmr_size s0 s0"
| reachable_step: "reachable M mmr_size s0 s \<Longrightarrow> mmr_verify_iteration M mmr_size s = Next s'
     \<Longrightarrow> reachable M mmr_size s0 s'"

section \<open>The left peak\<close>

lemma unat_u32_succ_le: "unat (h :: u32) \<le> 62 \<Longrightarrow> unat (h + 1) = unat h + 1"
  by (simp add: unat_word_ariths)

lemma get_peak_pos_eq:
  assumes "unat h \<le> 62"
  shows "mmr_get_peak_pos_by_height h = Inr (2 ^ (unat h + 1) - 2)"
  using assms by (simp add: mmr_get_peak_pos_by_height_def shl_u64_def unat_u32_succ_le)

lemma get_peak_pos_defined_iff:
  "(\<exists>p. mmr_get_peak_pos_by_height h = Inr p) \<longleftrightarrow> unat (h + 1) < 64"
  by (simp add: mmr_get_peak_pos_by_height_def shl_u64_def)

lemma unat_peak_pos:
  assumes "1 \<le> k" "k < 64"
  shows "unat ((2::u64) ^ k - 2) = 2 ^ k - 2"
proof -
  have p: "unat ((2::u64) ^ k) = 2 ^ k" by (rule unat_pow2_u64 [OF assms(2)])
  have "(2::nat) ^ 1 \<le> 2 ^ k" using assms(1) by (intro power_increasing) simp_all
  then have "unat (2::u64) \<le> unat ((2::u64) ^ k)" using p by simp
  then have "(2::u64) \<le> 2 ^ k" by (simp only: word_le_nat_alt)
  then have "unat ((2::u64) ^ k - 2) = unat ((2::u64) ^ k) - unat (2::u64)" by (rule unat_sub)
  with p show ?thesis by simp
qed

lemma left_peak_loop_spec:
  assumes "left_peak_loop m h pp p = Inr (h', pp', p')"
    and "unat h \<le> 62" and "1 \<le> unat h"
    and "mmr_get_peak_pos_by_height h = Inr p"
    and "mmr_get_peak_pos_by_height (h - 1) = Inr pp"
    and "\<forall>k. 1 \<le> unat k \<and> unat k < unat h \<longrightarrow> (\<exists>q. mmr_get_peak_pos_by_height k = Inr q \<and> q < m)"
  shows "unat h' \<le> 62 \<and> 1 \<le> unat h' \<and> mmr_get_peak_pos_by_height h' = Inr p'
       \<and> mmr_get_peak_pos_by_height (h' - 1) = Inr pp' \<and> m \<le> p'
       \<and> (\<forall>k. 1 \<le> unat k \<and> unat k < unat h' \<longrightarrow> (\<exists>q. mmr_get_peak_pos_by_height k = Inr q \<and> q < m))"
  using assms
proof (induction m h pp p rule: left_peak_loop.induct)
  case (1 m h pp p)
  note unfold = left_peak_loop.simps [of m h pp p]
  show ?case
  proof (cases "p < m")
    case False
    with "1.prems" show ?thesis by (simp add: unfold not_less)
  next
    case True
    with "1.prems"(1) obtain p2 where p2: "mmr_get_peak_pos_by_height (h + 1) = Inr p2"
      and l: "left_peak_loop m (h + 1) p p2 = Inr (h', pp', p')"
      by (auto simp: unfold split: sum.splits)
    have u1: "unat (h + 1) = unat h + 1" using "1.prems"(2) by (rule unat_u32_succ_le)
    from get_peak_pos_by_height_defined [OF p2] have "unat (h + 1 + 1) < 64" .
    moreover have "unat (h + 1 + 1) = unat (h + 1) + 1"
      using u1 "1.prems"(2) by (simp add: unat_word_ariths)
    ultimately have b: "unat (h + 1) \<le> 62" by simp
    have c: "1 \<le> unat (h + 1)" using u1 by simp
    have d: "mmr_get_peak_pos_by_height (h + 1 - 1) = Inr p" using "1.prems"(4) by simp
    have e: "\<forall>k. 1 \<le> unat k \<and> unat k < unat (h + 1)
        \<longrightarrow> (\<exists>q. mmr_get_peak_pos_by_height k = Inr q \<and> q < m)"
    proof (intro allI impI)
      fix k :: u32
      assume k: "1 \<le> unat k \<and> unat k < unat (h + 1)"
      show "\<exists>q. mmr_get_peak_pos_by_height k = Inr q \<and> q < m"
      proof (cases "unat k < unat h")
        case True
        with k "1.prems"(6) show ?thesis by simp
      next
        case False
        with k u1 have "unat k = unat h" by simp
        then have "k = h" by (simp add: word_unat_eq_iff)
        with "1.prems"(4) True show ?thesis by simp
      qed
    qed
    from "1.IH" [OF True p2 l b c p2 d e] show ?thesis .
  qed
qed

lemma left_peak_loop_defined:
  assumes "m \<le> 2 ^ 63 - 2" and "unat h \<le> 62" and "mmr_get_peak_pos_by_height h = Inr p"
  shows "\<exists>r. left_peak_loop m h pp p = Inr r"
  using assms
proof (induction m h pp p rule: left_peak_loop.induct)
  case (1 m h pp p)
  note unfold = left_peak_loop.simps [of m h pp p]
  show ?case
  proof (cases "p < m")
    case False
    then show ?thesis by (simp add: unfold)
  next
    case True
    have u1: "unat (h + 1) = unat h + 1" using "1.prems"(2) by (rule unat_u32_succ_le)
    have p: "p = 2 ^ (unat h + 1) - 2"
      using "1.prems"(3) get_peak_pos_eq [OF "1.prems"(2)] by simp
    have up: "unat p = 2 ^ (unat h + 1) - 2"
      unfolding p using "1.prems"(2) by (intro unat_peak_pos) simp_all
    have "unat ((2::u64) ^ 63 - 2) = 2 ^ 63 - 2" by (rule unat_peak_pos) simp_all
    with "1.prems"(1) have "unat m \<le> 2 ^ 63 - 2" by (simp add: word_le_nat_alt)
    moreover from True have "unat p < unat m" by (simp add: word_less_nat_alt)
    ultimately have "(2::nat) ^ (unat h + 1) - 2 < 2 ^ 63 - 2" using up by simp
    then have "(2::nat) ^ (unat h + 1) < 2 ^ 63" by simp
    then have "unat h + 1 < 63" by (simp only: power_strict_increasing_iff) 
    then have b: "unat (h + 1) \<le> 62" using u1 by simp
    then obtain p2 where p2: "mmr_get_peak_pos_by_height (h + 1) = Inr p2"
      using get_peak_pos_eq by blast
    from "1.IH" [OF True p2 "1.prems"(1) b p2] obtain r
      where "left_peak_loop m (h + 1) p p2 = Inr r" by blast
    with True p2 have "left_peak_loop m h pp p = Inr r" by (simp add: unfold)
    then show ?thesis by (rule exI)
  qed
qed

text \<open>
  C7, as the code has it. \<^verbatim>\<open>_mmr_left_peak_height_pos\<close> never clears \<^verbatim>\<open>present\<close>, also not
  for \<open>mmr_size = 0\<close>, which \<^verbatim>\<open>mmr_verify\<close> rejects by a test of its own. For every
  \<open>mmr_size\<close> from 0 to \<open>2 ^ 63 - 2\<close> it returns \<open>present = true\<close>, \<open>height = h - 1\<close>
  and \<open>pos = peak_pos_by_height (h - 1)\<close>, where \<open>h\<close> is the first height from 1 on with
  \<open>peak_pos_by_height h \<ge> mmr_size\<close>.
\<close>

theorem left_peak_spec:
  assumes "mmr_size \<le> 2 ^ 63 - 2"
  shows "\<exists>p h q. mmr_left_peak_height_pos mmr_size = Inr p \<and> peak_present p
           \<and> 1 \<le> h \<and> peak_height p = h - 1
           \<and> mmr_get_peak_pos_by_height (h - 1) = Inr (peak_pos p)
           \<and> mmr_get_peak_pos_by_height h = Inr q \<and> mmr_size \<le> q
           \<and> (\<forall>k. 1 \<le> k \<and> k < h \<longrightarrow>
                  (\<exists>q'. mmr_get_peak_pos_by_height k = Inr q' \<and> q' < mmr_size))"
proof -
  have p1: "mmr_get_peak_pos_by_height 1 = Inr 2" and p0: "mmr_get_peak_pos_by_height (1 - 1) = Inr 0"
    by (simp_all add: mmr_get_peak_pos_by_height_def shl_u64_def)
  from left_peak_loop_defined [OF assms _ p1, of 0] obtain h pp p
    where l: "left_peak_loop mmr_size 1 0 2 = Inr (h, pp, p)"
    by (metis prod_cases3 unat_1 one_le_numeral)
  have "unat h \<le> 62 \<and> 1 \<le> unat h \<and> mmr_get_peak_pos_by_height h = Inr p
       \<and> mmr_get_peak_pos_by_height (h - 1) = Inr pp \<and> mmr_size \<le> p
       \<and> (\<forall>k. 1 \<le> unat k \<and> unat k < unat h \<longrightarrow> (\<exists>q. mmr_get_peak_pos_by_height k = Inr q \<and> q < mmr_size))"
    by (rule left_peak_loop_spec [OF l _ _ p1 p0]) auto
  moreover have "mmr_left_peak_height_pos mmr_size
      = Inr \<lparr>peak_pos = pp, peak_height = h - 1, peak_present = True\<rparr>"
    by (simp add: mmr_left_peak_height_pos_def p1 l)
  moreover have "\<And>k :: u32. 1 \<le> k \<longleftrightarrow> 1 \<le> unat k" by (simp add: word_le_nat_alt)
  ultimately show ?thesis by (simp add: word_less_nat_alt)
qed

text \<open>The theorem at \<open>mmr_size = 4\<close>: the left peak is the node at position 2, of height 1.\<close>

theorem left_peak_spec_witness:
  "(4 :: u64) \<le> 2 ^ 63 - 2
   \<and> (\<exists>p h q. mmr_left_peak_height_pos 4 = Inr p \<and> peak_present p
           \<and> 1 \<le> h \<and> peak_height p = h - 1
           \<and> mmr_get_peak_pos_by_height (h - 1) = Inr (peak_pos p)
           \<and> mmr_get_peak_pos_by_height h = Inr q \<and> 4 \<le> q
           \<and> (\<forall>k. 1 \<le> k \<and> k < h \<longrightarrow>
                  (\<exists>q'. mmr_get_peak_pos_by_height k = Inr q' \<and> q' < 4)))"
  using left_peak_spec [of 4] by simp

text \<open>
  C7 as the specification words it does not hold: at \<open>mmr_size = 0\<close> the function
  returns a peak that is present.
\<close>

theorem left_peak_zero_counterexample:
  "mmr_left_peak_height_pos 0 = Inr \<lparr>peak_pos = 0, peak_height = 0, peak_present = True\<rparr>"
  by (simp add: mmr_left_peak_height_pos_def mmr_get_peak_pos_by_height_def shl_u64_def
      left_peak_loop.simps [of 0 1 0 2])

section \<open>Opcode 1\<close>

text \<open>
  The height of a position is defined whenever \<open>pos + 1\<close> does not wrap around to 0:
  the loop of \<^verbatim>\<open>_mmr_pos_height_in_tree\<close> then only meets non-zero words.
\<close>

lemma all_ones_defined: "\<exists>b. mmr_all_ones w = Inr b"
  by (cases "w = 0") (auto simp: mmr_all_ones_def mmr_leading_zeros_u64_def)

lemma height_loop_defined:
  "w \<noteq> 0 \<Longrightarrow> \<exists>q. height_loop w = Inr q \<and> q \<noteq> 0"
proof (induction w rule: height_loop.induct)
  case (1 pos)
  note unfold = height_loop.simps [of pos]
  from all_ones_defined obtain b where b: "mmr_all_ones pos = Inr b" by blast
  show ?case
  proof (cases b)
    case True
    with b "1.prems" show ?thesis by (simp add: unfold)
  next
    case False
    with b have ao: "mmr_all_ones pos = Inr False" by simp
    from jump_left_eq [OF "1.prems"] obtain pos' where j: "mmr_jump_left pos = Inr pos'" by blast
    from jump_left_bounds [OF ao j] have "pos' \<noteq> 0" by auto
    from "1.IH" [OF ao _ j this] obtain q
      where "height_loop pos' = Inr q" "q \<noteq> 0" by auto
    with ao j show ?thesis by (simp add: unfold)
  qed
qed

lemma pos_height_in_tree_defined:
  assumes "pos + 1 \<noteq> 0"
  shows "\<exists>h. mmr_pos_height_in_tree pos = Inr h"
proof -
  from height_loop_defined [OF assms] obtain q where "height_loop (pos + 1) = Inr q" "q \<noteq> 0"
    by blast
  then show ?thesis by (simp add: mmr_pos_height_in_tree_def mmr_leading_zeros_u64_def)
qed

lemma less_imp_succ_nonzero: "(p :: u64) < m \<Longrightarrow> p + 1 \<noteq> 0"
  using eq_neg_iff_add_eq_0 by force


text \<open>Elimination of the nested case distinctions, for a pass that returns.\<close>

lemma sum_Undefined_ReturnE:
  assumes "case_sum Undefined k m = Return r"
  obtains v where "m = Inr v" and "k v = Return r"
  using assms by (cases m) auto

lemma sum_Return_ReturnE:
  assumes "case_sum Return k x = Return r"
  obtains "x = Inl r" | v where "x = Inr v" and "k v = Return r"
  using assms by (cases x) auto

lemmas ReturnE = sum_Undefined_ReturnE sum_Return_ReturnE

lemma stack_set_ok:
  "unat i < MMR_STACK_SIZE \<Longrightarrow> stack_set st i v = Inr (st(unat i := v))"
  by (simp add: stack_set_def)

lemma stack_get_ok:
  "unat i < MMR_STACK_SIZE \<Longrightarrow> stack_get st i = Inr (st (unat i))"
  by (simp add: stack_get_def)

text \<open>
  C4. Opcode 1, after a leaf read that succeeded with \<open>(position, node)\<close>: the pass
  returns \<^verbatim>\<open>ERROR_INVALID_PROOF\<close> exactly when a previous leaf exists and
  \<open>position \<le> last_leaf_pos\<close>, or \<open>position \<ge> mmr_size\<close>, or the height of the
  position is not 0. Otherwise it stores an entry of kind Node with that node, that
  position and height 0 in the slot \<open>stack_top\<close>, moves \<open>stack_top\<close> up by one and sets
  \<open>last_leaf_pos\<close> to the position.
\<close>

theorem case_1_spec:
  assumes room: "unat (stack_top s) < MMR_STACK_SIZE"
    and rd: "mmr_default_leaf_iter_read (leaf_reader_context s) = Inr (c, Inr (leaf_node, position))"
  shows "mmr_verify_case_1 mmr_size s =
     (if (has_last_leaf s \<and> position \<le> last_leaf_pos s) \<or> mmr_size \<le> position
         \<or> mmr_pos_height_in_tree position \<noteq> Inr 0
      then Return ERROR_INVALID_PROOF
      else Next (s\<lparr>stack := (stack s)(unat (stack_top s) :=
                        \<lparr>sv_t = MMR_STACK_NODE, sv_node = leaf_node,
                         sv_position = position, sv_height = 0\<rparr>),
                    stack_top := stack_top s + 1,
                    last_leaf_pos := position, has_last_leaf := True,
                    leaf_reader_context := c\<rparr>))"
proof (cases "(has_last_leaf s \<and> position \<le> last_leaf_pos s) \<or> mmr_size \<le> position")
  case True
  with room rd show ?thesis by (auto simp: mmr_verify_case_1_def)
next
  case False
  then have "position < mmr_size" by (simp add: not_le)
  then have "position + 1 \<noteq> 0" by (rule less_imp_succ_nonzero)
  then obtain h where h: "mmr_pos_height_in_tree position = Inr h"
    using pos_height_in_tree_defined by blast
  have "h > 0 \<longleftrightarrow> h \<noteq> 0" by (simp add: word_greater_zero_iff)
  with False room rd h show ?thesis
    by (auto simp: mmr_verify_case_1_def stack_set_ok not_le)
qed


text \<open>
  A run to try the theorems on: the tree of one leaf, \<open>mmr_size = 1\<close>, whose leaf at
  position 0 is the node of the single byte \<open>0xAA\<close>, with the proof \<open>[1, 5]\<close>.
\<close>

definition example_stack0 :: "nat \<Rightarrow> mmr_stack_value_t" where
  "example_stack0 = (\<lambda>i. \<lparr>sv_t = 0, sv_node = \<lparr>node_t = 0, node_value = [], node_length = 0\<rparr>,
                            sv_position = 0, sv_height = 0\<rparr>)"

definition example_leaves :: "u8 list" where
  "example_leaves = [0, 0, 0, 0, 0, 0, 0, 0, 1, 0, 0xAA]"

definition example_state :: mmr_state where
  "example_state =
     mmr_verify_init example_stack0 \<lparr>peak_pos = 0, peak_height = 0, peak_present = True\<rparr>
       (mmr_default_buffer_reader_init [1, 5] 2)
       (mmr_default_buffer_reader_init example_leaves 11)"

lemma pos_height_0: "mmr_pos_height_in_tree 0 = Inr 0"
  by code_simp

lemma example_leaf_read:
  "mmr_default_leaf_iter_read (leaf_reader_context example_state)
     = Inr (\<lparr>buffer = example_leaves, buffer_length = 11, index = 11\<rparr>,
            Inr (\<lparr>node_t = MMR_NODE_TYPE_POINTER, node_value = [0xAA], node_length = 1\<rparr>, 0))"
  by code_simp

text \<open>C4 on the first pass of this run: the leaf is pushed.\<close>

theorem case_1_spec_witness:
  "unat (stack_top example_state) < MMR_STACK_SIZE
   \<and> mmr_default_leaf_iter_read (leaf_reader_context example_state)
       = Inr (\<lparr>buffer = example_leaves, buffer_length = 11, index = 11\<rparr>,
              Inr (\<lparr>node_t = MMR_NODE_TYPE_POINTER, node_value = [0xAA], node_length = 1\<rparr>, 0))
   \<and> mmr_verify_case_1 1 example_state
       = Next (example_state\<lparr>stack := (stack example_state)(unat (stack_top example_state) :=
                        \<lparr>sv_t = MMR_STACK_NODE,
                         sv_node = \<lparr>node_t = MMR_NODE_TYPE_POINTER, node_value = [0xAA], node_length = 1\<rparr>,
                         sv_position = 0, sv_height = 0\<rparr>),
                    stack_top := stack_top example_state + 1,
                    last_leaf_pos := 0, has_last_leaf := True,
                    leaf_reader_context := \<lparr>buffer = example_leaves, buffer_length = 11, index = 11\<rparr>\<rparr>)"
proof -
  have room: "unat (stack_top example_state) < MMR_STACK_SIZE"
    by (simp add: example_state_def mmr_verify_init_def MMR_STACK_SIZE_def)
  have nl: "\<not> has_last_leaf example_state"
    by (simp add: example_state_def mmr_verify_init_def)
  from case_1_spec [OF room example_leaf_read, of 1] room example_leaf_read nl pos_height_0
  show ?thesis by simp
qed

section \<open>Opcode 3\<close>

lemma unat_top_minus:
  assumes "2 \<le> (t :: u32)" and "unat t \<le> MMR_STACK_SIZE"
  shows "unat (t - 2) < MMR_STACK_SIZE" and "unat (t - 1) < MMR_STACK_SIZE"
    and "unat (t - 2) = unat t - 2" and "unat (t - 1) = unat t - 1"
proof -
  from assms(1) have a: "unat (t - 2) = unat t - unat (2 :: u32)" by (rule unat_sub)
  from assms(1) have "2 \<le> unat t" by (simp add: word_le_nat_alt)
  then have "t \<noteq> 0" by auto
  then have b: "unat (t - 1) = unat t - 1" by (rule unat_minus_one)
  from a show "unat (t - 2) = unat t - 2" by simp
  from b show "unat (t - 1) = unat t - 1" .
  from a b assms(2) \<open>2 \<le> unat t\<close> show "unat (t - 2) < MMR_STACK_SIZE" "unat (t - 1) < MMR_STACK_SIZE"
    by simp_all
qed

text \<open>
  Opcode 3 with at least two entries, in a state where the three helper calls have a
  defined result. The anchor is the entry on top when the one beneath is of kind Proof, and
  the one beneath otherwise; \<open>other\<close> is the entry that is not the anchor. With
  \<open>(pos, height)\<close> the anchor's coordinates: if the height of \<open>pos + 1\<close> is above
  \<open>height\<close>, the sibling position is \<open>pos - sibling_offset\<close>, the parent position
  \<open>pos + 1\<close> and the merge \<open>merge (other, anchor)\<close>; otherwise they are
  \<open>pos + sibling_offset\<close>, \<open>pos + parent_offset\<close> and \<open>merge (anchor, other)\<close>. When the
  other entry is not of kind Proof and its position is not the sibling position the pass
  returns \<^verbatim>\<open>ERROR_INVALID_PROOF\<close>; otherwise the slot \<open>stack_top - 2\<close> receives the Node
  entry with the merged node, the parent position and \<open>height + 1\<close>, and \<open>stack_top\<close>
  goes down by one.
\<close>

lemma case_3_defined:
  assumes two: "2 \<le> stack_top s" and bound: "unat (stack_top s) \<le> MMR_STACK_SIZE"
    and under: "under_entry = stack s (unat (stack_top s - 2))"
    and top: "top_entry = stack s (unat (stack_top s - 1))"
    and anchor: "anchor = (if sv_t under_entry = MMR_STACK_PROOF then top_entry else under_entry)"
    and other: "other = (if sv_t under_entry = MMR_STACK_PROOF then under_entry else top_entry)"
    and nh: "mmr_pos_height_in_tree (sv_position anchor + 1) = Inr next_height"
    and so: "mmr_sibling_offset (sv_height anchor) = Inr sibling_offset"
    and po: "mmr_parent_offset (sv_height anchor) = Inr parent_offset"
  shows "mmr_verify_case_3 M s =
     (if next_height > sv_height anchor then
        (if sv_t other \<noteq> MMR_STACK_PROOF \<and> sv_position other \<noteq> sv_position anchor - sibling_offset
         then Return ERROR_INVALID_PROOF
         else Next (s\<lparr>stack := (stack s)(unat (stack_top s - 2) :=
                        \<lparr>sv_t = MMR_STACK_NODE,
                         sv_node = MMR_MERGE M (sv_node other) (sv_node anchor),
                         sv_position = sv_position anchor + 1,
                         sv_height = sv_height anchor + 1\<rparr>),
                      stack_top := stack_top s - 1\<rparr>))
      else
        (if sv_t other \<noteq> MMR_STACK_PROOF \<and> sv_position other \<noteq> sv_position anchor + sibling_offset
         then Return ERROR_INVALID_PROOF
         else Next (s\<lparr>stack := (stack s)(unat (stack_top s - 2) :=
                        \<lparr>sv_t = MMR_STACK_NODE,
                         sv_node = MMR_MERGE M (sv_node anchor) (sv_node other),
                         sv_position = sv_position anchor + parent_offset,
                         sv_height = sv_height anchor + 1\<rparr>),
                      stack_top := stack_top s - 1\<rparr>)))"
proof -
  note idx = unat_top_minus [OF two bound]
  have nt: "\<not> stack_top s < 2" using two by (simp add: not_less)
  have g2: "stack_get (stack s) (stack_top s - 2) = Inr under_entry"
    and g1: "stack_get (stack s) (stack_top s - 1) = Inr top_entry"
    using idx under top by (simp_all add: stack_get_ok)
  have st: "\<And>v. stack_set (stack s) (stack_top s - 2) v = Inr ((stack s)(unat (stack_top s - 2) := v))"
    using idx by (simp add: stack_set_ok)
  show ?thesis
  proof (cases "sv_t under_entry = MMR_STACK_PROOF")
    case True
    with anchor other have ao: "anchor = top_entry" "other = under_entry" by simp_all
    from True nt g2 g1 nh so po show ?thesis
      unfolding ao
      by (simp add: mmr_verify_case_3_def Let_def merge_positions_def st)
  next
    case False
    with anchor other have ao: "anchor = under_entry" "other = top_entry" by simp_all
    from False nt g2 g1 nh so po show ?thesis
      unfolding ao
      by (simp add: mmr_verify_case_3_def Let_def merge_positions_def st)
  qed
qed


text \<open>
  The hooks of the examples: the default merge over a digest that leaves the bytes as they
  are, so that the order of a merge shows in its result.
\<close>

definition example_hooks :: mmr_hooks where
  "example_hooks = default_hooks (\<lambda>bs. bs)"

definition example_leaf_entry :: mmr_stack_value_t where
  "example_leaf_entry =
     \<lparr>sv_t = MMR_STACK_NODE,
      sv_node = \<lparr>node_t = MMR_NODE_TYPE_POINTER, node_value = [0xAA], node_length = 1\<rparr>,
      sv_position = 0, sv_height = 0\<rparr>"

definition example_proof_entry :: mmr_stack_value_t where
  "example_proof_entry =
     \<lparr>sv_t = MMR_STACK_PROOF,
      sv_node = \<lparr>node_t = MMR_NODE_TYPE_POINTER, node_value = [0xBB], node_length = 1\<rparr>,
      sv_position = 0, sv_height = 0\<rparr>"

definition example_merge_state :: mmr_state where
  "example_merge_state =
     example_state\<lparr>stack := example_stack0(0 := example_leaf_entry, 1 := example_proof_entry),
                   stack_top := 2\<rparr>"

lemma pos_height_1: "mmr_pos_height_in_tree 1 = Inr 0"
  by code_simp

lemma offsets_0: "mmr_sibling_offset 0 = Inr 1" "mmr_parent_offset 0 = Inr 2"
  by (simp_all add: mmr_sibling_offset_def mmr_parent_offset_def shl_int_def)

text \<open>
  A stack that holds the leaf of the example under a node of the proof: the leaf is the
  anchor and a left child, its parent is at position 2.
\<close>

lemma case_3_defined_example:
  "2 \<le> stack_top example_merge_state
   \<and> unat (stack_top example_merge_state) \<le> MMR_STACK_SIZE
   \<and> mmr_pos_height_in_tree (sv_position example_leaf_entry + 1) = Inr 0
   \<and> mmr_sibling_offset (sv_height example_leaf_entry) = Inr 1
   \<and> mmr_parent_offset (sv_height example_leaf_entry) = Inr 2
   \<and> mmr_verify_case_3 example_hooks example_merge_state
       = Next (example_merge_state\<lparr>stack := (stack example_merge_state)(0 :=
                   \<lparr>sv_t = MMR_STACK_NODE,
                    sv_node = \<lparr>node_t = MMR_NODE_TYPE_BUFFER, node_value = [0xAA, 0xBB], node_length = 32\<rparr>,
                    sv_position = 2, sv_height = 1\<rparr>),
                 stack_top := 1\<rparr>)"
proof -
  have two: "2 \<le> stack_top example_merge_state"
    and bound: "unat (stack_top example_merge_state) \<le> MMR_STACK_SIZE"
    and under: "example_leaf_entry = stack example_merge_state (unat (stack_top example_merge_state - 2))"
    and top: "example_proof_entry = stack example_merge_state (unat (stack_top example_merge_state - 1))"
    by (simp_all add: example_merge_state_def MMR_STACK_SIZE_def)
  have anchor: "example_leaf_entry =
      (if sv_t example_leaf_entry = MMR_STACK_PROOF then example_proof_entry else example_leaf_entry)"
    and other: "example_proof_entry =
      (if sv_t example_leaf_entry = MMR_STACK_PROOF then example_leaf_entry else example_proof_entry)"
    by (simp_all add: example_leaf_entry_def)
  have nh: "mmr_pos_height_in_tree (sv_position example_leaf_entry + 1) = Inr 0"
    and so: "mmr_sibling_offset (sv_height example_leaf_entry) = Inr 1"
    and po: "mmr_parent_offset (sv_height example_leaf_entry) = Inr 2"
    by (simp_all add: example_leaf_entry_def pos_height_1 offsets_0)
  have m: "MMR_MERGE example_hooks (sv_node example_leaf_entry) (sv_node example_proof_entry)
      = \<lparr>node_t = MMR_NODE_TYPE_BUFFER, node_value = [0xAA, 0xBB], node_length = 32\<rparr>"
    by (simp add: example_hooks_def default_hooks_def mmr_blake2b_merge_def mmr_node_value_def
        example_leaf_entry_def example_proof_entry_def)
  have e: "unat (stack_top example_merge_state - 2) = 0" "stack_top example_merge_state - 1 = 1"
    "sv_t example_proof_entry = MMR_STACK_PROOF" "sv_height example_leaf_entry = 0"
    "sv_position example_leaf_entry = 0"
    by (simp_all add: example_merge_state_def example_proof_entry_def example_leaf_entry_def)
  from case_3_defined [OF two bound under top anchor other nh so po, of example_hooks]
  have "mmr_verify_case_3 example_hooks example_merge_state
       = Next (example_merge_state\<lparr>stack := (stack example_merge_state)(0 :=
                   \<lparr>sv_t = MMR_STACK_NODE,
                    sv_node = \<lparr>node_t = MMR_NODE_TYPE_BUFFER, node_value = [0xAA, 0xBB], node_length = 32\<rparr>,
                    sv_position = 2, sv_height = 1\<rparr>),
                 stack_top := 1\<rparr>)"
    by (simp add: m e)
  with two bound nh so po show ?thesis by simp
qed

section \<open>Opcode 5\<close>








lemma unat_top_minus_1:
  assumes "1 \<le> (t :: u32)" and "unat t \<le> MMR_STACK_SIZE"
  shows "unat (t - 1) < MMR_STACK_SIZE" and "unat (t - 1) = unat t - 1"
proof -
  from assms(1) have "1 \<le> unat t" by (simp add: word_le_nat_alt)
  then have "t \<noteq> 0" by auto
  then show b: "unat (t - 1) = unat t - 1" by (rule unat_minus_one)
  with assms(2) \<open>1 \<le> unat t\<close> show "unat (t - 1) < MMR_STACK_SIZE" by simp
qed






section \<open>Faults and error codes\<close>

text \<open>Where a fault can come from.\<close>

lemma read_bytes_fault: "read_bytes buf i n = Inl f \<Longrightarrow> f = BufferOutOfBounds"
  by (simp add: read_bytes_def split: if_splits)

lemma read_node_fault: "mmr_default_buffer_read_node c = Inl f \<Longrightarrow> f = BufferOutOfBounds"
  by (auto simp: mmr_default_buffer_read_node_def Let_def split: if_splits sum.splits
      dest: read_bytes_fault)

lemma command_read_fault: "mmr_default_command_read c = Inl f \<Longrightarrow> f = BufferOutOfBounds"
  by (auto simp: mmr_default_command_read_def split: if_splits sum.splits dest: read_bytes_fault)

lemma leaf_read_fault: "mmr_default_leaf_iter_read c = Inl f \<Longrightarrow> f = BufferOutOfBounds"
  by (auto simp: mmr_default_leaf_iter_read_def Let_def split: if_splits sum.splits
      dest: read_bytes_fault read_node_fault)

lemma shl_int_fault: "shl_int x n = Inl f \<Longrightarrow> f = UndefinedShift"
  by (simp add: shl_int_def split: if_splits)

lemma shl_u64_fault: "shl_u64 x n = Inl f \<Longrightarrow> f = UndefinedShift"
  by (simp add: shl_u64_def split: if_splits)

lemma sibling_offset_fault: "mmr_sibling_offset h = Inl f \<Longrightarrow> f = UndefinedShift"
  by (auto simp: mmr_sibling_offset_def split: sum.splits dest: shl_int_fault)

lemma parent_offset_fault: "mmr_parent_offset h = Inl f \<Longrightarrow> f = UndefinedShift"
  by (auto simp: mmr_parent_offset_def split: sum.splits dest: shl_int_fault)

lemma merge_positions_fault: "merge_positions p h nh so = Inl f \<Longrightarrow> f = UndefinedShift"
  by (auto simp: merge_positions_def split: if_splits sum.splits dest: parent_offset_fault)

lemma leading_zeros_fault: "mmr_leading_zeros_u64 v = Inl f \<Longrightarrow> f = UndefinedClz"
  by (simp add: mmr_leading_zeros_u64_def split: if_splits)

lemma all_ones_fault: "mmr_all_ones v = Inl f \<Longrightarrow> False"
  using all_ones_defined [of v] by auto

lemma jump_left_fault: "mmr_jump_left v = Inl f \<Longrightarrow> f \<noteq> StackOutOfBounds"
  by (auto simp: mmr_jump_left_def Let_def split: sum.splits
      dest: leading_zeros_fault shl_u64_fault)

lemma height_loop_fault: "height_loop v = Inl f \<Longrightarrow> f \<noteq> StackOutOfBounds"
proof (induction v rule: height_loop.induct)
  case (1 pos)
  from "1.prems" show ?case
    by (auto simp: height_loop.simps [of pos] split: sum.splits bool.splits
        dest: all_ones_fault jump_left_fault "1.IH")
qed

lemma pos_height_fault: "mmr_pos_height_in_tree p = Inl f \<Longrightarrow> f \<noteq> StackOutOfBounds"
  by (auto simp: mmr_pos_height_in_tree_def split: sum.splits
      dest: height_loop_fault leading_zeros_fault)

lemma right_peak_loop_fault: "right_peak_loop m h p = Inl f \<Longrightarrow> f = UndefinedShift"
proof (induction m h p rule: right_peak_loop.induct)
  case (1 m h p)
  from "1.prems" show ?case
    by (auto simp: right_peak_loop.simps [of m h p] split: sum.splits if_splits
        dest: parent_offset_fault "1.IH")
qed

lemma get_right_peak_fault: "mmr_get_right_peak peak m = Inl f \<Longrightarrow> f = UndefinedShift"
  by (auto simp: mmr_get_right_peak_def split: sum.splits option.splits
      dest: sibling_offset_fault right_peak_loop_fault)

lemma peak_search_fault: "peak_search m pos peak = Inl f \<Longrightarrow> f = UndefinedShift"
proof (induction m pos peak rule: peak_search.induct)
  case (1 m pos peak)
  from "1.prems" show ?case
    by (auto simp: peak_search.simps [of m pos peak] split: sum.splits if_splits
        dest: get_right_peak_fault intro: "1.IH")
qed

lemma sum_Undefined_UndefinedE:
  assumes "case_sum Undefined k m = Undefined f"
  obtains "m = Inl f" | v where "m = Inr v" and "k v = Undefined f"
  using assms by (cases m) auto

lemma sum_Return_UndefinedE:
  assumes "case_sum Return k x = Undefined f"
  obtains v where "x = Inr v" and "k v = Undefined f"
  using assms by (cases x) auto

lemmas UndefinedE = sum_Undefined_UndefinedE sum_Return_UndefinedE

text \<open>The error codes of the readers are not 0.\<close>

lemma read_node_code:
  "mmr_default_buffer_read_node c = Inr (c', Inl ret) \<Longrightarrow> ret = ERROR_NODE_EOF"
  by (auto simp: mmr_default_buffer_read_node_def Let_def split: if_splits sum.splits)

lemma leaf_read_code:
  "mmr_default_leaf_iter_read c = Inr (c', Inl ret) \<Longrightarrow>
     ret = ERROR_NO_MORE_LEAFS \<or> ret = ERROR_LEAF_EOF \<or> ret = ERROR_NODE_EOF"
  by (auto simp: mmr_default_leaf_iter_read_def Let_def split: if_splits sum.splits prod.splits
      dest: read_node_code)

lemma command_read_code:
  "mmr_default_command_read c = Inr (c', Inl ret) \<Longrightarrow> ret = ERROR_NO_MORE_COMMANDS \<and> c' = c"
  by (auto simp: mmr_default_command_read_def split: if_splits sum.splits)

text \<open>What a pass that goes on has done to the stack.\<close>

lemma case_1_Next:
  assumes "mmr_verify_case_1 mmr_size s = Next s'"
  shows "unat (stack_top s) < MMR_STACK_SIZE \<and> stack_top s' = stack_top s + 1
       \<and> command s' = command s
       \<and> (\<forall>i. i \<noteq> unat (stack_top s) \<longrightarrow> stack s' i = stack s i)
       \<and> sv_t (stack s' (unat (stack_top s))) = MMR_STACK_NODE
       \<and> sv_position (stack s' (unat (stack_top s))) < mmr_size
       \<and> sv_height (stack s' (unat (stack_top s))) = 0
       \<and> mmr_pos_height_in_tree (sv_position (stack s' (unat (stack_top s)))) = Inr 0"
  using assms
  by (auto simp: mmr_verify_case_1_def stack_set_def not_le word_greater_zero_iff
      elim!: NextE split: if_splits prod.splits)

lemma case_2_Next:
  assumes "mmr_verify_case_2 s = Next s'"
  shows "unat (stack_top s) < MMR_STACK_SIZE \<and> stack_top s' = stack_top s + 1
       \<and> command s' = command s
       \<and> (\<forall>i. i \<noteq> unat (stack_top s) \<longrightarrow> stack s' i = stack s i)
       \<and> sv_t (stack s' (unat (stack_top s))) = MMR_STACK_PROOF"
  using assms
  by (auto simp: mmr_verify_case_2_def stack_set_def not_le
      elim!: NextE split: if_splits prod.splits)

lemma case_3_Next:
  assumes "mmr_verify_case_3 M s = Next s'"
  shows "2 \<le> stack_top s \<and> stack_top s' = stack_top s - 1 \<and> command s' = command s
       \<and> (\<forall>i. i \<noteq> unat (stack_top s - 2) \<longrightarrow> stack s' i = stack s i)"
  using assms
  by (auto simp: mmr_verify_case_3_def stack_set_def Let_def not_less
      elim!: NextE split: if_splits prod.splits)

lemma case_4_Next:
  assumes "mmr_verify_case_4 M s = Next s'"
  shows "2 \<le> stack_top s \<and> stack_top s' = stack_top s - 1 \<and> command s' = command s
       \<and> (\<forall>i. i \<noteq> unat (stack_top s - 2) \<longrightarrow> stack s' i = stack s i)"
  using assms
  by (auto simp: mmr_verify_case_4_def stack_set_def Let_def not_less
      elim!: NextE split: if_splits prod.splits)

lemma case_5_Next:
  assumes "mmr_verify_case_5 mmr_size s = Next s'"
  shows "stack_top s \<noteq> 0 \<and> stack_top s' = stack_top s \<and> command s' = command s
       \<and> (\<forall>i. i \<noteq> unat (stack_top s - 1) \<longrightarrow> stack s' i = stack s i)"
  using assms
  by (auto simp: mmr_verify_case_5_def stack_set_def Let_def not_less
      elim!: NextE split: if_splits prod.splits)


section \<open>The frame of a pass\<close>

lemma switch_Next_cases:
  assumes "mmr_verify_switch M mmr_size s = Next s'"
  obtains "command s = 1" and "mmr_verify_case_1 mmr_size s = Next s'"
  | "command s = 2" and "mmr_verify_case_2 s = Next s'"
  | "command s = 3" and "mmr_verify_case_3 M s = Next s'"
  | "command s = 4" and "mmr_verify_case_4 M s = Next s'"
  | "command s = 5" and "mmr_verify_case_5 mmr_size s = Next s'"
  using assms by (auto simp: mmr_verify_switch_def split: if_splits)

lemma switch_frame:
  assumes "mmr_verify_switch M mmr_size s = Next s'"
  shows "command s' = command s
       \<and> (\<forall>i. i + 2 < unat (stack_top s) \<longrightarrow> stack s' i = stack s i)
       \<and> (command s = 1 \<or> command s = 2 \<or> command s = 5 \<longrightarrow>
            (\<forall>i. i + 1 < unat (stack_top s) \<longrightarrow> stack s' i = stack s i))"
  using assms
proof (cases rule: switch_Next_cases)
  case 1
  from case_1_Next [OF 1(2)] 1(1) show ?thesis by auto
next
  case 2
  from case_2_Next [OF 2(2)] 2(1) show ?thesis by auto
next
  case 3
  from case_3_Next [OF 3(2)] have two: "2 \<le> stack_top s" and c: "command s' = command s"
    and f: "\<forall>i. i \<noteq> unat (stack_top s - 2) \<longrightarrow> stack s' i = stack s i" by simp_all
  from two have "unat (stack_top s - 2) = unat (stack_top s) - unat (2 :: u32)" by (rule unat_sub)
  with f c 3(1) show ?thesis by auto
next
  case 4
  from case_4_Next [OF 4(2)] have two: "2 \<le> stack_top s" and c: "command s' = command s"
    and f: "\<forall>i. i \<noteq> unat (stack_top s - 2) \<longrightarrow> stack s' i = stack s i" by simp_all
  from two have "unat (stack_top s - 2) = unat (stack_top s) - unat (2 :: u32)" by (rule unat_sub)
  with f c 4(1) show ?thesis by auto
next
  case 5
  from case_5_Next [OF 5(2)] have nz: "stack_top s \<noteq> 0" and c: "command s' = command s"
    and f: "\<forall>i. i \<noteq> unat (stack_top s - 1) \<longrightarrow> stack s' i = stack s i" by simp_all
  from nz have "unat (stack_top s - 1) = unat (stack_top s) - 1" by (rule unat_minus_one)
  with f c 5(1) show ?thesis by auto
qed

text \<open>
  C10. A pass of the loop that goes on changes at most the two slots on top of the stack:
  every entry at an index below \<open>stack_top - 2\<close> is what it was, with its kind, node,
  position and height, and for the opcodes 1, 2 and 5 so is every entry below
  \<open>stack_top - 1\<close>. \<open>stack_top\<close> is the one before the pass, and the opcode of the pass is
  the byte at the cursor of the proof reader, which the pass leaves in \<open>command\<close>.
\<close>

theorem iteration_frame:
  assumes "mmr_verify_iteration M mmr_size s = Next s'"
  shows "command s' = buffer (proof_reader_context s) ! unat (index (proof_reader_context s))
       \<and> (\<forall>i. i + 2 < unat (stack_top s) \<longrightarrow> stack s' i = stack s i)
       \<and> (command s' = 1 \<or> command s' = 2 \<or> command s' = 5 \<longrightarrow>
            (\<forall>i. i + 1 < unat (stack_top s) \<longrightarrow> stack s' i = stack s i))"
proof -
  define s1 where "s1 = s\<lparr>proof_reader_context :=
        (proof_reader_context s)\<lparr>index := index (proof_reader_context s) + 1\<rparr>,
      command := buffer (proof_reader_context s) ! unat (index (proof_reader_context s))\<rparr>"
  from iteration_Next [OF assms] have "mmr_verify_switch M mmr_size s1 = Next s'"
    by (simp add: s1_def)
  from switch_frame [OF this] show ?thesis by (simp add: s1_def)
qed


text \<open>
  C10 on a stack of three entries with opcode 3 next: the two entries on top are merged,
  the entry in slot 0 stays.
\<close>

definition example_frame_state :: mmr_state where
  "example_frame_state =
     example_state\<lparr>stack := example_stack0(0 := example_proof_entry, 1 := example_leaf_entry,
                                            2 := example_proof_entry),
                   stack_top := 3,
                   proof_reader_context := mmr_default_buffer_reader_init [3] 1\<rparr>"

lemma example_frame_goes_on:
  "(case mmr_verify_iteration example_hooks 1 example_frame_state of Next s' \<Rightarrow> True | _ \<Rightarrow> False)"
  by code_simp

theorem iteration_frame_witness:
  "\<exists>s'. mmr_verify_iteration example_hooks 1 example_frame_state = Next s'
        \<and> command s' = 3 \<and> stack s' 0 = stack example_frame_state 0"
proof -
  from example_frame_goes_on obtain s'
    where n: "mmr_verify_iteration example_hooks 1 example_frame_state = Next s'"
    by (cases "mmr_verify_iteration example_hooks 1 example_frame_state") simp_all
  have "(0::nat) + 2 < unat (stack_top example_frame_state)"
    by (simp add: example_frame_state_def)
  with iteration_frame [OF n] have "stack s' 0 = stack example_frame_state 0" by blast
  moreover from iteration_frame [OF n] have "command s' = 3"
    by (simp add: example_frame_state_def mmr_default_buffer_reader_init_def)
  ultimately show ?thesis using n by blast
qed

section \<open>The bound of the stack\<close>

text \<open>No pass touches the array outside its bounds while \<open>stack_top \<le> MMR_STACK_SIZE\<close>.\<close>

lemma case_1_Undefined:
  "mmr_verify_case_1 mmr_size s = Undefined f \<Longrightarrow> f \<noteq> StackOutOfBounds"
  by (auto simp: mmr_verify_case_1_def stack_set_def not_le
      elim!: UndefinedE split: if_splits prod.splits dest: leaf_read_fault pos_height_fault)

lemma case_2_Undefined:
  "mmr_verify_case_2 s = Undefined f \<Longrightarrow> f \<noteq> StackOutOfBounds"
  by (auto simp: mmr_verify_case_2_def stack_set_def not_le
      elim!: UndefinedE split: if_splits prod.splits dest: read_node_fault)

lemma case_3_Undefined:
  assumes u: "mmr_verify_case_3 M s = Undefined f" and b: "unat (stack_top s) \<le> MMR_STACK_SIZE"
  shows "f \<noteq> StackOutOfBounds"
proof -
  from u have two: "2 \<le> stack_top s"
    by (auto simp: mmr_verify_case_3_def not_less split: if_splits)
  note idx = unat_top_minus [OF two b]
  have acc: "\<And>st. stack_get st (stack_top s - 2) = Inr (st (unat (stack_top s - 2)))"
    "\<And>st. stack_get st (stack_top s - 1) = Inr (st (unat (stack_top s - 1)))"
    "\<And>st v. stack_set st (stack_top s - 2) v = Inr (st(unat (stack_top s - 2) := v))"
    using idx(1,2) by (simp_all add: stack_get_ok stack_set_ok)
  from u two show ?thesis
    by (auto simp: mmr_verify_case_3_def Let_def acc
        elim!: UndefinedE split: if_splits prod.splits
        dest: pos_height_fault sibling_offset_fault merge_positions_fault)
qed

lemma case_4_Undefined:
  assumes u: "mmr_verify_case_4 M s = Undefined f" and b: "unat (stack_top s) \<le> MMR_STACK_SIZE"
  shows "f \<noteq> StackOutOfBounds"
proof -
  from u have two: "2 \<le> stack_top s"
    by (auto simp: mmr_verify_case_4_def not_less split: if_splits)
  note idx = unat_top_minus [OF two b]
  have acc: "\<And>st. stack_get st (stack_top s - 2) = Inr (st (unat (stack_top s - 2)))"
    "\<And>st. stack_get st (stack_top s - 1) = Inr (st (unat (stack_top s - 1)))"
    "\<And>st v. stack_set st (stack_top s - 2) v = Inr (st(unat (stack_top s - 2) := v))"
    using idx(1,2) by (simp_all add: stack_get_ok stack_set_ok)
  from u two show ?thesis
    by (auto simp: mmr_verify_case_4_def Let_def acc
        elim!: UndefinedE split: if_splits prod.splits)
qed

lemma case_5_Undefined:
  assumes u: "mmr_verify_case_5 mmr_size s = Undefined f" and b: "unat (stack_top s) \<le> MMR_STACK_SIZE"
  shows "f \<noteq> StackOutOfBounds"
proof -
  have "stack_top s < 1 \<Longrightarrow> False"
    using u by (simp add: mmr_verify_case_5_def)
  then have one: "1 \<le> stack_top s" by (auto simp: not_less [symmetric])
  note idx = unat_top_minus_1 [OF one b]
  have acc: "\<And>st. stack_get st (stack_top s - 1) = Inr (st (unat (stack_top s - 1)))"
    "\<And>st v. stack_set st (stack_top s - 1) v = Inr (st(unat (stack_top s - 1) := v))"
    using idx(1) by (simp_all add: stack_get_ok stack_set_ok)
  from u show ?thesis
    by (auto simp: mmr_verify_case_5_def Let_def acc
        elim!: UndefinedE split: if_splits prod.splits
        dest: peak_search_fault get_right_peak_fault)
qed

lemma switch_Undefined:
  assumes "mmr_verify_switch M mmr_size s = Undefined f" and "unat (stack_top s) \<le> MMR_STACK_SIZE"
  shows "f \<noteq> StackOutOfBounds"
  using assms case_1_Undefined [of mmr_size s f] case_2_Undefined [of s f]
    case_3_Undefined [of M s f] case_4_Undefined [of M s f] case_5_Undefined [of mmr_size s f]
  by (simp add: mmr_verify_switch_def split: if_splits)

lemma iteration_Undefined:
  assumes "mmr_verify_iteration M mmr_size s = Undefined f" and "unat (stack_top s) \<le> MMR_STACK_SIZE"
  shows "f \<noteq> StackOutOfBounds"
  using assms
  by (auto simp: mmr_verify_iteration_def elim!: UndefinedE split: if_splits prod.splits sum.splits
      dest: command_read_fault command_read_code switch_Undefined)


text \<open>\<open>stack_top \<le> MMR_STACK_SIZE\<close> is kept by every pass.\<close>

lemma unat_top_succ:
  assumes "unat (t :: u32) < MMR_STACK_SIZE"
  shows "unat (t + 1) = unat t + 1"
  using assms by (simp add: MMR_STACK_SIZE_def unat_word_ariths)

lemma switch_stack_top:
  assumes n: "mmr_verify_switch M mmr_size s = Next s'"
    and b: "unat (stack_top s) \<le> MMR_STACK_SIZE"
  shows "unat (stack_top s') \<le> MMR_STACK_SIZE"
  using n
proof (cases rule: switch_Next_cases)
  case 1
  from case_1_Next [OF 1(2)] have "unat (stack_top s) < MMR_STACK_SIZE"
    "stack_top s' = stack_top s + 1" by simp_all
  with unat_top_succ [of "stack_top s"] show ?thesis by simp
next
  case 2
  from case_2_Next [OF 2(2)] have "unat (stack_top s) < MMR_STACK_SIZE"
    "stack_top s' = stack_top s + 1" by simp_all
  with unat_top_succ [of "stack_top s"] show ?thesis by simp
next
  case 3
  from case_3_Next [OF 3(2)] have two: "2 \<le> stack_top s" and e: "stack_top s' = stack_top s - 1"
    by simp_all
  from unat_top_minus(4) [OF two b] e b show ?thesis by simp
next
  case 4
  from case_4_Next [OF 4(2)] have two: "2 \<le> stack_top s" and e: "stack_top s' = stack_top s - 1"
    by simp_all
  from unat_top_minus(4) [OF two b] e b show ?thesis by simp
next
  case 5
  from case_5_Next [OF 5(2)] b show ?thesis by simp
qed

lemma iteration_stack_top:
  assumes n: "mmr_verify_iteration M mmr_size s = Next s'"
    and b: "unat (stack_top s) \<le> MMR_STACK_SIZE"
  shows "unat (stack_top s') \<le> MMR_STACK_SIZE"
proof -
  define s1 where "s1 = s\<lparr>proof_reader_context :=
        (proof_reader_context s)\<lparr>index := index (proof_reader_context s) + 1\<rparr>,
      command := buffer (proof_reader_context s) ! unat (index (proof_reader_context s))\<rparr>"
  from iteration_Next [OF n] have "mmr_verify_switch M mmr_size s1 = Next s'"
    by (simp add: s1_def)
  moreover have "unat (stack_top s1) \<le> MMR_STACK_SIZE" using b by (simp add: s1_def)
  ultimately show ?thesis by (rule switch_stack_top)
qed

lemma reachable_stack_top:
  assumes "reachable M mmr_size s0 s" and "unat (stack_top s0) \<le> MMR_STACK_SIZE"
  shows "unat (stack_top s) \<le> MMR_STACK_SIZE"
  using assms
  by (induction rule: reachable.induct) (auto intro: iteration_stack_top)

text \<open>
  C8. In every state that a run of \<^verbatim>\<open>mmr_verify\<close> passes through, the stack holds at most
  \<^verbatim>\<open>MMR_STACK_SIZE\<close> entries (257 by default) and the next pass neither reads nor writes
  a slot at an index of \<^verbatim>\<open>MMR_STACK_SIZE\<close> or above; the opcodes 1 and 2 return
  \<^verbatim>\<open>ERROR_INVALID_STACK\<close> in any state whose stack holds \<^verbatim>\<open>MMR_STACK_SIZE\<close> entries.
\<close>

theorem stack_bounded:
  assumes "reachable M mmr_size (mmr_verify_init stack0 peak proof_ctx leaf_ctx) s"
  shows "unat (stack_top s) \<le> MMR_STACK_SIZE
       \<and> mmr_verify_iteration M mmr_size s \<noteq> Undefined StackOutOfBounds
       \<and> (\<forall>t. MMR_STACK_SIZE \<le> unat (stack_top t) \<longrightarrow>
              mmr_verify_case_1 mmr_size t = Return ERROR_INVALID_STACK
            \<and> mmr_verify_case_2 t = Return ERROR_INVALID_STACK)"
proof -
  have "unat (stack_top (mmr_verify_init stack0 peak proof_ctx leaf_ctx)) \<le> MMR_STACK_SIZE"
    by (simp add: mmr_verify_init_def)
  with assms have b: "unat (stack_top s) \<le> MMR_STACK_SIZE" by (rule reachable_stack_top)
  then have "mmr_verify_iteration M mmr_size s \<noteq> Undefined StackOutOfBounds"
    using iteration_Undefined [of M mmr_size s StackOutOfBounds] by blast
  with b show ?thesis by (simp add: mmr_verify_case_1_def mmr_verify_case_2_def)
qed

text \<open>C8 at the start of the example run, and the two opcodes on a full stack.\<close>

definition example_full_state :: mmr_state where
  "example_full_state = example_state\<lparr>stack_top := 257\<rparr>"

theorem stack_bounded_witness:
  "reachable example_hooks 1 example_state example_state
   \<and> unat (stack_top example_state) \<le> MMR_STACK_SIZE
   \<and> mmr_verify_iteration example_hooks 1 example_state \<noteq> Undefined StackOutOfBounds
   \<and> MMR_STACK_SIZE \<le> unat (stack_top example_full_state)
   \<and> mmr_verify_case_1 1 example_full_state = Return ERROR_INVALID_STACK
   \<and> mmr_verify_case_2 example_full_state = Return ERROR_INVALID_STACK"
proof -
  have r: "reachable example_hooks 1
      (mmr_verify_init example_stack0 \<lparr>peak_pos = 0, peak_height = 0, peak_present = True\<rparr>
         (mmr_default_buffer_reader_init [1, 5] 2)
         (mmr_default_buffer_reader_init example_leaves 11))
      example_state"
    unfolding example_state_def by (rule reachable_start)
  have f: "MMR_STACK_SIZE \<le> unat (stack_top example_full_state)"
    by (simp add: example_full_state_def MMR_STACK_SIZE_def)
  from stack_bounded [OF r] f r show ?thesis by (simp add: example_state_def [symmetric])
qed

section \<open>Node entries\<close>









subsection \<open>The height of a parent\<close>

text \<open>
  A yardstick for the proofs below, not part of the code: the height of the position \<open>p\<close>,
  counted from 1, in the perfect binary tree of \<open>2 ^ k - 1\<close> nodes numbered in post-order.
  The root is the last position, the left subtree holds the first \<open>2 ^ (k - 1) - 1\<close>
  positions and the right subtree the same number after them.
\<close>

fun tree_height :: "nat \<Rightarrow> nat \<Rightarrow> nat" where
  "tree_height 0 p = 0"
| "tree_height (Suc k) p =
     (if p = 2 ^ Suc k - 1 then k
      else if p \<le> 2 ^ k - 1 then tree_height k p
      else tree_height k (p - (2 ^ k - 1)))"

lemma tree_height_root: "tree_height (Suc k) (2 * 2 ^ k - 1) = k"
  by simp

lemma tree_height_left: "p \<le> 2 ^ k - 1 \<Longrightarrow> tree_height (Suc k) p = tree_height k p"
proof -
  assume a: "p \<le> 2 ^ k - 1"
  have "(1::nat) \<le> 2 ^ k" by simp
  with a have "p \<noteq> 2 * 2 ^ k - 1" by linarith
  with a show ?thesis by simp
qed


declare tree_height.simps(2) [simp del]

lemma tree_height_root_Suc [simp]: "tree_height (Suc k) (2 * 2 ^ k - Suc 0) = k"
  using tree_height_root [of k] by simp


lemma tree_height_1: "tree_height k 1 = 0"
proof (induction k)
  case 0
  show ?case by simp
next
  case (Suc k)
  show ?case
  proof (cases k)
    case 0
    have "tree_height (Suc 0) (2 * 2 ^ 0 - 1) = 0" by (rule tree_height_root)
    then show ?thesis by (simp add: 0)
  next
    case (Suc j)
    have "(2::nat) \<le> 2 ^ k" unfolding Suc by simp
    then have "(1::nat) \<le> 2 ^ k - 1" by simp
    then have "tree_height (Suc k) 1 = tree_height k 1" by (rule tree_height_left)
    with Suc.IH show ?thesis by simp
  qed
qed

lemma tree_height_Suc_0 [simp]: "tree_height k (Suc 0) = 0"
  using tree_height_1 [of k] by simp

















subsection \<open>The entries on the stack\<close>

















text \<open>The kinds, positions and heights of the entries below \<open>stack_top\<close>.\<close>

definition live_entries :: "mmr_state \<Rightarrow> (u8 \<times> u64 \<times> u32) list" where
  "live_entries s =
     map (\<lambda>i. (sv_t (stack s i), sv_position (stack s i), sv_height (stack s i)))
       [0..<unat (stack_top s)]"

fun broke_entries :: "loop_exit \<Rightarrow> (u8 \<times> u64 \<times> u32) list option" where
  "broke_entries (Broke s) = Some (live_entries s)"
| "broke_entries (Returned ret) = None"
| "broke_entries (Faulted f) = None"


section \<open>Opcode 3 above height 29\<close>

text \<open>
  The proof of the leaf at position 0 as far as its first \<open>k\<close> merges: opcode 1, then
  \<open>k\<close> times a node of the proof (here an empty one) and opcode 3. The leaf stream holds
  the leaf at position 0 with an empty node.
\<close>

definition tall_proof :: "nat \<Rightarrow> u8 list" where
  "tall_proof k = 1 # concat (replicate k [2, 0, 0, 3])"

definition tall_leaves :: "u8 list" where
  "tall_leaves = [0, 0, 0, 0, 0, 0, 0, 0, 0, 0]"

text \<open>
  C3. For an anchor that is a left child, opcode 3 is to store the parent position
  \<open>pos + parent_offset height\<close>, that is \<open>pos + 2 ^ (height + 1)\<close>, and \<open>height + 1\<close>, with
  the sibling at \<open>pos + sibling_offset height\<close>. The code does so for the heights up to 29
  only: \<^verbatim>\<open>_mmr_sibling_offset\<close> and \<^verbatim>\<open>_mmr_parent_offset\<close> shift the \<^verbatim>\<open>int\<close> constant
  2, not a \<^verbatim>\<open>uint64_t\<close> as \<^verbatim>\<open>_mmr_get_peak_pos_by_height\<close> does, and \<^verbatim>\<open>2 << 30\<close> is more
  than an \<^verbatim>\<open>int\<close> holds. In the tree of \<open>2 ^ 31\<close> leaves, \<open>mmr_size = 2 ^ 32 - 1\<close>, the
  leaf at position 0 is below 31 merges. After 30 of them the stack holds the Node at
  position \<open>2 ^ 31 - 2\<close> of height 30, a left child, whose parent is the root at position
  \<open>2 ^ 32 - 2\<close>. At the next opcode 3 both offsets are undefined, and so is the run of
  \<^verbatim>\<open>mmr_verify\<close>: no parent position is computed.
\<close>

theorem case_3_shift_undefined:
  "mmr_left_peak_height_pos 4294967295
     = Inr \<lparr>peak_pos = 4294967294, peak_height = 31, peak_present = True\<rparr>
   \<and> broke_entries
       (mmr_verify_loop example_hooks 4294967295
          (mmr_verify_init example_stack0
             \<lparr>peak_pos = 4294967294, peak_height = 31, peak_present = True\<rparr>
             (mmr_default_buffer_reader_init (tall_proof 30) 121)
             (mmr_default_buffer_reader_init tall_leaves 10)))
     = Some [(MMR_STACK_NODE, 2147483646, 30)]
   \<and> mmr_pos_height_in_tree (2147483646 + 1) = Inr 0
   \<and> mmr_sibling_offset 30 = Inl UndefinedShift
   \<and> mmr_parent_offset 30 = Inl UndefinedShift
   \<and> mmr_verify example_hooks example_stack0 [] 0 4294967295
        (mmr_default_buffer_reader_init (tall_proof 31) 125)
        (mmr_default_buffer_reader_init tall_leaves 10)
     = Inl UndefinedShift"
  by code_simp

section \<open>Return codes and the checks after the loop\<close>

text \<open>The codes that \<^verbatim>\<open>mmr_verify\<close> returns from inside the loop; none of them is 0.\<close>

definition error_codes :: "int set" where
  "error_codes = {ERROR_INVALID_STACK, ERROR_INVALID_COMMAND, ERROR_INVALID_PROOF,
                  ERROR_LEAF_EOF, ERROR_NO_MORE_LEAFS, ERROR_NODE_EOF}"

lemma reachable_trans:
  assumes "reachable M mmr_size s1 s2" and "reachable M mmr_size s0 s1"
  shows "reachable M mmr_size s0 s2"
  using assms by (induction rule: reachable.induct) (auto intro: reachable_step)

lemma case_1_Return: "mmr_verify_case_1 mmr_size s = Return ret \<Longrightarrow> ret \<in> error_codes"
  by (auto simp: mmr_verify_case_1_def error_codes_def
      elim!: ReturnE split: if_splits prod.splits dest: leaf_read_code)

lemma case_2_Return: "mmr_verify_case_2 s = Return ret \<Longrightarrow> ret \<in> error_codes"
  by (auto simp: mmr_verify_case_2_def error_codes_def
      elim!: ReturnE split: if_splits prod.splits dest: read_node_code)

lemma case_3_Return: "mmr_verify_case_3 M s = Return ret \<Longrightarrow> ret \<in> error_codes"
  by (auto simp: mmr_verify_case_3_def error_codes_def Let_def
      elim!: ReturnE split: if_splits prod.splits)

lemma case_4_Return: "mmr_verify_case_4 M s = Return ret \<Longrightarrow> ret \<in> error_codes"
  by (auto simp: mmr_verify_case_4_def error_codes_def Let_def
      elim!: ReturnE split: if_splits prod.splits)

lemma case_5_Return: "mmr_verify_case_5 mmr_size s = Return ret \<Longrightarrow> ret \<in> error_codes"
  by (auto simp: mmr_verify_case_5_def error_codes_def Let_def
      elim!: ReturnE split: if_splits prod.splits)

lemma switch_Return: "mmr_verify_switch M mmr_size s = Return ret \<Longrightarrow> ret \<in> error_codes"
  using case_1_Return [of mmr_size s ret] case_2_Return [of s ret] case_3_Return [of M s ret]
    case_4_Return [of M s ret] case_5_Return [of mmr_size s ret]
  by (auto simp: mmr_verify_switch_def error_codes_def split: if_splits)

lemma iteration_Return:
  assumes "mmr_verify_iteration M mmr_size s = Return ret"
  shows "ret \<in> error_codes"
proof -
  from assms obtain c r where cr: "mmr_default_command_read (proof_reader_context s) = Inr (c, r)"
    by (auto simp: mmr_verify_iteration_def elim!: ReturnE)
  from cr show ?thesis
  proof (cases rule: command_read_cases)
    case 1
    with assms cr show ?thesis by (simp add: mmr_verify_iteration_def)
  next
    case 2
    with assms cr show ?thesis by (auto simp: mmr_verify_iteration_def dest: switch_Return)
  qed
qed

lemma sum_Undefined_BreakE:
  assumes "case_sum Undefined k m = Break s'"
  obtains v where "m = Inr v" and "k v = Break s'"
  using assms by (cases m) auto

lemma sum_Return_BreakE:
  assumes "case_sum Return k x = Break s'"
  obtains v where "x = Inr v" and "k v = Break s'"
  using assms by (cases x) auto

lemmas BreakE = sum_Undefined_BreakE sum_Return_BreakE

lemma switch_Break: "mmr_verify_switch M mmr_size s \<noteq> Break s'"
proof -
  have "mmr_verify_case_1 mmr_size s \<noteq> Break s'"
    by (auto simp: mmr_verify_case_1_def elim!: BreakE split: if_splits prod.splits)
  moreover have "mmr_verify_case_2 s \<noteq> Break s'"
    by (auto simp: mmr_verify_case_2_def elim!: BreakE split: if_splits prod.splits)
  moreover have "mmr_verify_case_3 M s \<noteq> Break s'"
    by (auto simp: mmr_verify_case_3_def Let_def elim!: BreakE split: if_splits prod.splits)
  moreover have "mmr_verify_case_4 M s \<noteq> Break s'"
    by (auto simp: mmr_verify_case_4_def Let_def elim!: BreakE split: if_splits prod.splits)
  moreover have "mmr_verify_case_5 mmr_size s \<noteq> Break s'"
    by (auto simp: mmr_verify_case_5_def Let_def elim!: BreakE split: if_splits prod.splits)
  ultimately show ?thesis by (simp add: mmr_verify_switch_def)
qed

lemma iteration_Break:
  assumes "mmr_verify_iteration M mmr_size s = Break s'"
  shows "s' = s \<and> mmr_default_command_read (proof_reader_context s)
                    = Inr (proof_reader_context s, Inl ERROR_NO_MORE_COMMANDS)"
proof -
  from assms obtain c r where cr: "mmr_default_command_read (proof_reader_context s) = Inr (c, r)"
    by (auto simp: mmr_verify_iteration_def elim!: BreakE)
  from cr show ?thesis
  proof (cases rule: command_read_cases)
    case 1
    with assms cr show ?thesis by (auto simp: mmr_verify_iteration_def)
  next
    case 2
    with assms cr switch_Break show ?thesis by (simp add: mmr_verify_iteration_def)
  qed
qed

text \<open>How the loop is left is how its last pass ends, in a state that the run passes through.\<close>

lemma loop_last_pass:
  "\<exists>s. reachable M mmr_size s0 s
     \<and> (case mmr_verify_loop M mmr_size s0 of
          Broke s' \<Rightarrow> mmr_verify_iteration M mmr_size s = Break s'
        | Returned ret \<Rightarrow> mmr_verify_iteration M mmr_size s = Return ret
        | Faulted f \<Rightarrow> mmr_verify_iteration M mmr_size s = Undefined f)"
proof (induction M mmr_size s0 rule: mmr_verify_loop.induct)
  case (1 M mmr_size s)
  note unfold = mmr_verify_loop.simps [of M mmr_size s]
  show ?case
  proof (cases "mmr_verify_iteration M mmr_size s")
    case (Next s')
    from "1.IH" [OF Next] obtain t where t: "reachable M mmr_size s' t"
      and l: "(case mmr_verify_loop M mmr_size s' of
          Broke s'' \<Rightarrow> mmr_verify_iteration M mmr_size t = Break s''
        | Returned ret \<Rightarrow> mmr_verify_iteration M mmr_size t = Return ret
        | Faulted f \<Rightarrow> mmr_verify_iteration M mmr_size t = Undefined f)"
      by blast
    have "reachable M mmr_size s s'" using reachable_start Next by (rule reachable_step)
    with t have "reachable M mmr_size s t" by (rule reachable_trans)
    moreover have "mmr_verify_loop M mmr_size s = mmr_verify_loop M mmr_size s'"
      using Next by (simp add: unfold)
    ultimately show ?thesis using l by auto
  next
    case (Break s')
    then show ?thesis using reachable_start [of M mmr_size s] by (auto simp: unfold)
  next
    case (Return ret)
    then show ?thesis using reachable_start [of M mmr_size s] by (auto simp: unfold)
  next
    case (Undefined f)
    then show ?thesis using reachable_start [of M mmr_size s] by (auto simp: unfold)
  qed
qed


lemma loop_Broke:
  assumes "mmr_verify_loop M mmr_size s0 = Broke s"
  shows "reachable M mmr_size s0 s
       \<and> mmr_default_command_read (proof_reader_context s)
           = Inr (proof_reader_context s, Inl ERROR_NO_MORE_COMMANDS)"
proof -
  from loop_last_pass [of M mmr_size s0] assms obtain t
    where t: "reachable M mmr_size s0 t" and b: "mmr_verify_iteration M mmr_size t = Break s"
    by auto
  from iteration_Break [OF b] t show ?thesis by simp
qed

lemma loop_Returned:
  assumes "mmr_verify_loop M mmr_size s0 = Returned ret"
  shows "ret \<in> error_codes"
proof -
  from loop_last_pass [of M mmr_size s0] assms obtain t
    where "mmr_verify_iteration M mmr_size t = Return ret" by auto
  then show ?thesis by (rule iteration_Return)
qed

lemma stack_get_0: "stack_get st 0 = Inr (st 0)"
  by (simp add: stack_get_def MMR_STACK_SIZE_def)

lemma finish_probe_ok:
  assumes "stack_top s = 1"
    and "mmr_default_leaf_iter_read (leaf_reader_context s) = Inr (c, Inr leaf)"
  shows "mmr_verify_finish M root root_length s = Inr ERROR_INVALID_PROOF"
  using assms by (simp add: mmr_verify_finish_def)

lemma finish_probe_failed:
  assumes "stack_top s = 1"
    and "mmr_default_leaf_iter_read (leaf_reader_context s) = Inr (c, Inl ret)"
  shows "mmr_verify_finish M root root_length s =
           (if root_length \<noteq> node_length (sv_node (stack s 0))
               \<or> MMR_MEMCMP M root (mmr_node_value (sv_node (stack s 0))) root_length \<noteq> 0
            then Inr ERROR_INVALID_PROOF else Inr 0)"
proof -
  from leaf_read_code [OF assms(2)] have "ret \<noteq> 0" by auto
  with assms show ?thesis by (simp add: mmr_verify_finish_def stack_get_0)
qed

lemma finish_success:
  "mmr_verify_finish M root root_length s = Inr 0 \<longleftrightarrow>
     stack_top s = 1
     \<and> (\<exists>c ret. mmr_default_leaf_iter_read (leaf_reader_context s) = Inr (c, Inl ret))
     \<and> node_length (sv_node (stack s 0)) = root_length
     \<and> MMR_MEMCMP M root (mmr_node_value (sv_node (stack s 0))) root_length = 0"
proof (cases "stack_top s = 1")
  case False
  then show ?thesis by (simp add: mmr_verify_finish_def)
next
  case one: True
  show ?thesis
  proof (cases "mmr_default_leaf_iter_read (leaf_reader_context s)")
    case (Inl f)
    with one show ?thesis by (simp add: mmr_verify_finish_def)
  next
    case (Inr cr)
    obtain c r where cr: "cr = (c, r)" by (cases cr)
    show ?thesis
    proof (cases r)
      case (Inl ret)
      with Inr cr have rd: "mmr_default_leaf_iter_read (leaf_reader_context s) = Inr (c, Inl ret)"
        by simp
      from finish_probe_failed [OF one rd] rd one show ?thesis by auto
    next
      case (Inr leaf)
      with \<open>mmr_default_leaf_iter_read (leaf_reader_context s) = Inr cr\<close> cr
      have rd: "mmr_default_leaf_iter_read (leaf_reader_context s) = Inr (c, Inr leaf)"
        by simp
      from finish_probe_ok [OF one rd] rd show ?thesis by simp
    qed
  qed
qed

lemma finish_codes:
  assumes "mmr_verify_finish M root root_length s = Inr ret"
  shows "ret = 0 \<or> ret = ERROR_INVALID_PROOF"
  using assms
  by (auto simp: mmr_verify_finish_def split: if_splits sum.splits prod.splits)

section \<open>The verdict\<close>

text \<open>
  C1. \<^verbatim>\<open>mmr_verify\<close> returns 0 exactly when \<open>mmr_size\<close> is not 0, the loop is left
  through \<^verbatim>\<open>ERROR_NO_MORE_COMMANDS\<close> and the three checks after it pass: one entry is on
  the stack, the probe read on the leaf cursor does not succeed, and the node of that
  entry has the length \<open>root_length\<close> and compares equal to \<open>root\<close>. Every other value
  that it returns is one of the error codes, none of which is 0.
\<close>

theorem mmr_verify_success:
  "(mmr_verify M stack0 root root_length mmr_size proof_ctx leaf_ctx = Inr 0 \<longleftrightarrow>
      mmr_size \<noteq> 0
      \<and> (\<exists>peak s c ret.
            mmr_left_peak_height_pos mmr_size = Inr peak
          \<and> mmr_verify_loop M mmr_size (mmr_verify_init stack0 peak proof_ctx leaf_ctx) = Broke s
          \<and> mmr_default_command_read (proof_reader_context s)
              = Inr (proof_reader_context s, Inl ERROR_NO_MORE_COMMANDS)
          \<and> stack_top s = 1
          \<and> mmr_default_leaf_iter_read (leaf_reader_context s) = Inr (c, Inl ret)
          \<and> node_length (sv_node (stack s 0)) = root_length
          \<and> MMR_MEMCMP M root (mmr_node_value (sv_node (stack s 0))) root_length = 0))
   \<and> (\<forall>ret. mmr_verify M stack0 root root_length mmr_size proof_ctx leaf_ctx = Inr ret
          \<longrightarrow> ret = 0 \<or> ret \<in> error_codes)"
proof (cases "mmr_left_peak_height_pos mmr_size")
  case (Inl f)
  then show ?thesis by (simp add: mmr_verify_def)
next
  case (Inr peak)
  show ?thesis
  proof (cases "mmr_size = 0")
    case True
    with Inr show ?thesis by (simp add: mmr_verify_def error_codes_def)
  next
    case nz: False
    define s0 where "s0 = mmr_verify_init stack0 peak proof_ctx leaf_ctx"
    show ?thesis
    proof (cases "mmr_verify_loop M mmr_size s0")
      case (Broke s)
      with Inr nz have v: "mmr_verify M stack0 root root_length mmr_size proof_ctx leaf_ctx
          = mmr_verify_finish M root root_length s"
        by (simp add: mmr_verify_def s0_def)
      from loop_Broke [OF Broke]
      have nm: "mmr_default_command_read (proof_reader_context s)
              = Inr (proof_reader_context s, Inl ERROR_NO_MORE_COMMANDS)" by simp
      have "ret = 0 \<or> ret \<in> error_codes"
        if "mmr_verify_finish M root root_length s = Inr ret" for ret
        using finish_codes [OF that] by (auto simp: error_codes_def)
      with v Inr nz Broke nm show ?thesis
        by (auto simp: finish_success s0_def)
    next
      case (Returned ret)
      with Inr nz have v: "mmr_verify M stack0 root root_length mmr_size proof_ctx leaf_ctx = Inr ret"
        by (simp add: mmr_verify_def s0_def)
      from loop_Returned [OF Returned] have e: "ret \<in> error_codes" .
      then have "ret \<noteq> 0" by (auto simp: error_codes_def)
      with v e Inr Returned show ?thesis by (auto simp: s0_def)
    next
      case (Faulted f)
      with Inr nz have "mmr_verify M stack0 root root_length mmr_size proof_ctx leaf_ctx = Inl f"
        by (simp add: mmr_verify_def s0_def)
      with Inr Faulted show ?thesis by (auto simp: s0_def)
    qed
  qed
qed


text \<open>C1 on the example run, which is accepted.\<close>

lemma example_run_accepts:
  "mmr_verify example_hooks example_stack0 [0xAA] 1 1
     (mmr_default_buffer_reader_init [1, 5] 2)
     (mmr_default_buffer_reader_init example_leaves 11) = Inr 0"
  by code_simp

theorem mmr_verify_success_witness:
  "mmr_verify example_hooks example_stack0 [0xAA] 1 1
     (mmr_default_buffer_reader_init [1, 5] 2)
     (mmr_default_buffer_reader_init example_leaves 11) = Inr 0
   \<and> (\<exists>peak s c ret.
            mmr_left_peak_height_pos 1 = Inr peak
          \<and> mmr_verify_loop example_hooks 1
               (mmr_verify_init example_stack0 peak (mmr_default_buffer_reader_init [1, 5] 2)
                  (mmr_default_buffer_reader_init example_leaves 11)) = Broke s
          \<and> mmr_default_command_read (proof_reader_context s)
              = Inr (proof_reader_context s, Inl ERROR_NO_MORE_COMMANDS)
          \<and> stack_top s = 1
          \<and> mmr_default_leaf_iter_read (leaf_reader_context s) = Inr (c, Inl ret)
          \<and> node_length (sv_node (stack s 0)) = 1
          \<and> MMR_MEMCMP example_hooks [0xAA] (mmr_node_value (sv_node (stack s 0))) 1 = 0)"
  using example_run_accepts
    mmr_verify_success [of example_hooks example_stack0 "[0xAA]" 1 1
      "mmr_default_buffer_reader_init [1, 5] 2" "mmr_default_buffer_reader_init example_leaves 11"]
  by blast

text \<open>
  C6, as the code has it. After the loop is left through \<^verbatim>\<open>ERROR_NO_MORE_COMMANDS\<close> with
  one entry on the stack, \<^verbatim>\<open>mmr_verify\<close> returns \<^verbatim>\<open>ERROR_INVALID_PROOF\<close> whenever the probe
  read succeeds, that is, whenever the leaf stream holds one more complete record. A probe
  that fails passes the check with any of its codes, \<^verbatim>\<open>ERROR_NO_MORE_LEAFS\<close>,
  \<^verbatim>\<open>ERROR_LEAF_EOF\<close> or \<^verbatim>\<open>ERROR_NODE_EOF\<close>, and the verdict is then the comparison with
  the root.
\<close>

theorem leaf_probe:
  assumes lp: "mmr_left_peak_height_pos mmr_size = Inr peak" and nz: "mmr_size \<noteq> 0"
    and loop: "mmr_verify_loop M mmr_size (mmr_verify_init stack0 peak proof_ctx leaf_ctx) = Broke s"
    and one: "stack_top s = 1"
  shows "(\<forall>c leaf. mmr_default_leaf_iter_read (leaf_reader_context s) = Inr (c, Inr leaf) \<longrightarrow>
            mmr_verify M stack0 root root_length mmr_size proof_ctx leaf_ctx
              = Inr ERROR_INVALID_PROOF)
       \<and> (\<forall>c ret. mmr_default_leaf_iter_read (leaf_reader_context s) = Inr (c, Inl ret) \<longrightarrow>
            (ret = ERROR_NO_MORE_LEAFS \<or> ret = ERROR_LEAF_EOF \<or> ret = ERROR_NODE_EOF)
          \<and> mmr_verify M stack0 root root_length mmr_size proof_ctx leaf_ctx
              = (if root_length \<noteq> node_length (sv_node (stack s 0))
                    \<or> MMR_MEMCMP M root (mmr_node_value (sv_node (stack s 0))) root_length \<noteq> 0
                 then Inr ERROR_INVALID_PROOF else Inr 0))"
proof -
  from lp nz loop have v: "mmr_verify M stack0 root root_length mmr_size proof_ctx leaf_ctx
          = mmr_verify_finish M root root_length s"
    by (simp add: mmr_verify_def)
  show ?thesis
  proof (intro conjI allI impI)
    fix c leaf
    assume "mmr_default_leaf_iter_read (leaf_reader_context s) = Inr (c, Inr leaf)"
    from finish_probe_ok [OF one this] v
    show "mmr_verify M stack0 root root_length mmr_size proof_ctx leaf_ctx = Inr ERROR_INVALID_PROOF"
      by simp
  next
    fix c ret
    assume rd: "mmr_default_leaf_iter_read (leaf_reader_context s) = Inr (c, Inl ret)"
    from leaf_read_code [OF rd]
    show "ret = ERROR_NO_MORE_LEAFS \<or> ret = ERROR_LEAF_EOF \<or> ret = ERROR_NODE_EOF" .
    from finish_probe_failed [OF one rd] v
    show "mmr_verify M stack0 root root_length mmr_size proof_ctx leaf_ctx
              = (if root_length \<noteq> node_length (sv_node (stack s 0))
                    \<or> MMR_MEMCMP M root (mmr_node_value (sv_node (stack s 0))) root_length \<noteq> 0
                 then Inr ERROR_INVALID_PROOF else Inr 0)"
      by simp
  qed
qed

text \<open>
  C6 on the example run with a second complete leaf record left over, which is rejected,
  and with one byte left over, which is accepted.
\<close>

definition example_leaves_extra :: "u8 list" where
  "example_leaves_extra = [0, 0, 0, 0, 0, 0, 0, 0, 1, 0, 0xAA, 0, 0, 0, 0, 0, 0, 0, 0, 1, 0, 0xAA]"

lemma example_extra_loop:
  "(case mmr_verify_loop example_hooks 1
           (mmr_verify_init example_stack0 \<lparr>peak_pos = 0, peak_height = 0, peak_present = True\<rparr>
              (mmr_default_buffer_reader_init [1, 5] 2)
              (mmr_default_buffer_reader_init example_leaves_extra 22)) of
      Broke s \<Rightarrow> stack_top s = 1
        \<and> (case mmr_default_leaf_iter_read (leaf_reader_context s) of
             Inr (c, Inr leaf) \<Rightarrow> True | _ \<Rightarrow> False)
    | _ \<Rightarrow> False)"
  by code_simp

lemma left_peak_1:
  "mmr_left_peak_height_pos 1 = Inr \<lparr>peak_pos = 0, peak_height = 0, peak_present = True\<rparr>"
  by code_simp

definition example_leaves_trailing :: "u8 list" where
  "example_leaves_trailing = [0, 0, 0, 0, 0, 0, 0, 0, 1, 0, 0xAA, 7]"

lemma example_trailing_loop:
  "(case mmr_verify_loop example_hooks 1
           (mmr_verify_init example_stack0 \<lparr>peak_pos = 0, peak_height = 0, peak_present = True\<rparr>
              (mmr_default_buffer_reader_init [1, 5] 2)
              (mmr_default_buffer_reader_init example_leaves_trailing 12)) of
      Broke s \<Rightarrow> stack_top s = 1
        \<and> (case mmr_default_leaf_iter_read (leaf_reader_context s) of
             Inr (c, Inl ret) \<Rightarrow> ret = ERROR_LEAF_EOF | _ \<Rightarrow> False)
        \<and> node_length (sv_node (stack s 0)) = 1
        \<and> MMR_MEMCMP example_hooks [0xAA] (mmr_node_value (sv_node (stack s 0))) 1 = 0
    | _ \<Rightarrow> False)"
  by code_simp

theorem leaf_probe_witness:
  "mmr_left_peak_height_pos 1 = Inr \<lparr>peak_pos = 0, peak_height = 0, peak_present = True\<rparr>
   \<and> (1 :: u64) \<noteq> 0
   \<and> (\<exists>s c leaf.
         mmr_verify_loop example_hooks 1
           (mmr_verify_init example_stack0 \<lparr>peak_pos = 0, peak_height = 0, peak_present = True\<rparr>
              (mmr_default_buffer_reader_init [1, 5] 2)
              (mmr_default_buffer_reader_init example_leaves_extra 22)) = Broke s
       \<and> stack_top s = 1
       \<and> mmr_default_leaf_iter_read (leaf_reader_context s) = Inr (c, Inr leaf))
   \<and> mmr_verify example_hooks example_stack0 [0xAA] 1 1
        (mmr_default_buffer_reader_init [1, 5] 2)
        (mmr_default_buffer_reader_init example_leaves_extra 22) = Inr ERROR_INVALID_PROOF
   \<and> (\<exists>s c.
         mmr_verify_loop example_hooks 1
           (mmr_verify_init example_stack0 \<lparr>peak_pos = 0, peak_height = 0, peak_present = True\<rparr>
              (mmr_default_buffer_reader_init [1, 5] 2)
              (mmr_default_buffer_reader_init example_leaves_trailing 12)) = Broke s
       \<and> stack_top s = 1
       \<and> mmr_default_leaf_iter_read (leaf_reader_context s) = Inr (c, Inl ERROR_LEAF_EOF))
   \<and> mmr_verify example_hooks example_stack0 [0xAA] 1 1
        (mmr_default_buffer_reader_init [1, 5] 2)
        (mmr_default_buffer_reader_init example_leaves_trailing 12) = Inr 0"
proof -
  have nz: "(1 :: u64) \<noteq> 0" by simp
  define l where "l = mmr_verify_loop example_hooks 1
           (mmr_verify_init example_stack0 \<lparr>peak_pos = 0, peak_height = 0, peak_present = True\<rparr>
              (mmr_default_buffer_reader_init [1, 5] 2)
              (mmr_default_buffer_reader_init example_leaves_extra 22))"
  from example_extra_loop obtain s where b: "l = Broke s" and one: "stack_top s = 1"
    and p: "(case mmr_default_leaf_iter_read (leaf_reader_context s) of
             Inr (c, Inr leaf) \<Rightarrow> True | _ \<Rightarrow> False)"
    unfolding l_def [symmetric] by (cases l) simp_all
  have "\<exists>c leaf. mmr_default_leaf_iter_read (leaf_reader_context s) = Inr (c, Inr leaf)"
  proof (cases "mmr_default_leaf_iter_read (leaf_reader_context s)")
    case (Inl f)
    with p show ?thesis by simp
  next
    case (Inr cr)
    obtain c r where cr: "cr = (c, r)" by (cases cr)
    with Inr p show ?thesis by (cases r) simp_all
  qed
  then obtain c leaf
    where rd: "mmr_default_leaf_iter_read (leaf_reader_context s) = Inr (c, Inr leaf)"
    by blast
  from leaf_probe [OF left_peak_1 nz b [unfolded l_def] one, of "[0xAA]" 1] rd
  have v1: "mmr_verify example_hooks example_stack0 [0xAA] 1 1
        (mmr_default_buffer_reader_init [1, 5] 2)
        (mmr_default_buffer_reader_init example_leaves_extra 22) = Inr ERROR_INVALID_PROOF"
    by blast
  define l2 where "l2 = mmr_verify_loop example_hooks 1
           (mmr_verify_init example_stack0 \<lparr>peak_pos = 0, peak_height = 0, peak_present = True\<rparr>
              (mmr_default_buffer_reader_init [1, 5] 2)
              (mmr_default_buffer_reader_init example_leaves_trailing 12))"
  from example_trailing_loop obtain t where b2: "l2 = Broke t" and one2: "stack_top t = 1"
    and p2: "(case mmr_default_leaf_iter_read (leaf_reader_context t) of
             Inr (c, Inl ret) \<Rightarrow> ret = ERROR_LEAF_EOF | _ \<Rightarrow> False)"
    and n2: "node_length (sv_node (stack t 0)) = 1"
    and m2: "MMR_MEMCMP example_hooks [0xAA] (mmr_node_value (sv_node (stack t 0))) 1 = 0"
    unfolding l2_def [symmetric] by (cases l2) simp_all
  have "\<exists>c. mmr_default_leaf_iter_read (leaf_reader_context t) = Inr (c, Inl ERROR_LEAF_EOF)"
  proof (cases "mmr_default_leaf_iter_read (leaf_reader_context t)")
    case (Inl f)
    with p2 show ?thesis by simp
  next
    case (Inr cr)
    obtain c r where cr: "cr = (c, r)" by (cases cr)
    with Inr p2 show ?thesis by (cases r) simp_all
  qed
  then obtain c2
    where rd2: "mmr_default_leaf_iter_read (leaf_reader_context t) = Inr (c2, Inl ERROR_LEAF_EOF)"
    by blast
  from leaf_probe [OF left_peak_1 nz b2 [unfolded l2_def] one2, of "[0xAA]" 1] rd2
  have "mmr_verify example_hooks example_stack0 [0xAA] 1 1
        (mmr_default_buffer_reader_init [1, 5] 2)
        (mmr_default_buffer_reader_init example_leaves_trailing 12)
     = (if (1 :: u32) \<noteq> node_length (sv_node (stack t 0))
            \<or> MMR_MEMCMP example_hooks [0xAA] (mmr_node_value (sv_node (stack t 0))) 1 \<noteq> 0
        then Inr ERROR_INVALID_PROOF else Inr 0)"
    by blast
  with n2 m2 have v2: "mmr_verify example_hooks example_stack0 [0xAA] 1 1
        (mmr_default_buffer_reader_init [1, 5] 2)
        (mmr_default_buffer_reader_init example_leaves_trailing 12) = Inr 0"
    by simp
  from left_peak_1 nz b [unfolded l_def] one rd v1 b2 [unfolded l2_def] one2 rd2 v2
  show ?thesis by blast
qed

text \<open>
  C6 as the specification words it does not hold: with one byte left in the leaf
  stream after the leaf that opcode 1 consumes, the probe fails with \<^verbatim>\<open>ERROR_LEAF_EOF\<close>,
  not with \<^verbatim>\<open>ERROR_NO_MORE_LEAFS\<close>, and the verification succeeds.
\<close>

theorem leaf_stream_counterexample:
  "run_mmr_verify example_hooks example_stack0 [0xAA] 1 1 [1, 5] 2
     [0, 0, 0, 0, 0, 0, 0, 0, 1, 0, 0xAA, 7] 12 = Inr 0
   \<and> mmr_default_leaf_iter_read
       \<lparr>buffer = [0, 0, 0, 0, 0, 0, 0, 0, 1, 0, 0xAA, 7], buffer_length = 12, index = 11\<rparr>
     = Inr (\<lparr>buffer = [0, 0, 0, 0, 0, 0, 0, 0, 1, 0, 0xAA, 7], buffer_length = 12, index = 11\<rparr>,
            Inl ERROR_LEAF_EOF)
   \<and> ERROR_LEAF_EOF \<noteq> ERROR_NO_MORE_LEAFS"
  by code_simp

section \<open>The default leaf reader\<close>

lemma le_value_2: "length bs = 2 \<Longrightarrow> le_value bs < 65536"
proof -
  assume "length bs = 2"
  then obtain a b where bs: "bs = [a, b]"
    by (cases bs; cases "tl bs") auto
  have "unat a < 256" "unat b < 256" using unsigned_less [of a] unsigned_less [of b] by simp_all
  then show ?thesis by (simp add: bs)
qed

lemma unat_len16: "L < 65536 \<Longrightarrow> unat (of_nat L :: u16) = L"
  by (simp add: unat_of_nat)

lemma unat_ucast_len16: "L < 65536 \<Longrightarrow> unat (ucast (of_nat L :: u16) :: u32) = L"
  by (simp add: unsigned_ucast_eq unat_of_nat take_bit_nat_eq_self)

lemma ucast_len16: "L < 65536 \<Longrightarrow> (ucast (of_nat L :: u16) :: u32) = of_nat L"
  by (simp add: word_unat_eq_iff unat_ucast_len16 unat_of_nat)

text \<open>A context whose cursor is inside the declared length, which the buffer holds.\<close>

definition reader_ok :: "mmr_default_buffer_reader_t \<Rightarrow> bool" where
  "reader_ok c \<longleftrightarrow> unat (buffer_length c) \<le> length (buffer c) \<and> index c \<le> buffer_length c"

lemma read_node_spec:
  assumes ok: "reader_ok c"
    and i: "i = unat (index c)" and n: "n = unat (buffer_length c)"
    and L: "L = le_value (take 2 (drop i (buffer c)))"
  shows "(n - i < 2 \<or> n - i - 2 < L \<longrightarrow>
            mmr_default_buffer_read_node c = Inr (c, Inl ERROR_NODE_EOF))
       \<and> (2 \<le> n - i \<and> L \<le> n - i - 2 \<longrightarrow>
            mmr_default_buffer_read_node c
              = Inr (c\<lparr>index := index c + 2 + of_nat L\<rparr>,
                     Inr \<lparr>node_t = MMR_NODE_TYPE_POINTER,
                          node_value = take L (drop (i + 2) (buffer c)),
                          node_length = of_nat L\<rparr>))"
proof -
  from ok have len: "n \<le> length (buffer c)" and le: "index c \<le> buffer_length c"
    by (simp_all add: reader_ok_def n)
  from le have "i \<le> n" by (simp add: i n word_le_nat_alt)
  have r: "unat (buffer_length c - index c) = n - i"
    using le by (simp add: i n unat_sub)
  have lt2: "buffer_length c - index c < 2 \<longleftrightarrow> n - i < 2"
    by (simp add: word_less_nat_alt r)
  show ?thesis
  proof (cases "n - i < 2")
    case True
    with lt2 show ?thesis by (simp add: mmr_default_buffer_read_node_def)
  next
    case False
    then have ge: "2 \<le> n - i" by simp
    with len \<open>i \<le> n\<close> have rb: "read_bytes (buffer c) (unat (index c)) 2
        = Inr (take 2 (drop i (buffer c)))"
      by (simp add: read_bytes_def i)
    have "length (take 2 (drop i (buffer c))) = 2" using ge len \<open>i \<le> n\<close> by simp
    then have Lb: "L < 65536" unfolding L by (rule le_value_2)
    have two: "(2 :: u32) \<le> buffer_length c - index c"
      using ge by (simp add: word_le_nat_alt r)
    have r2: "unat (buffer_length c - index c - 2) = n - i - 2"
      using two r by (simp add: unat_sub)
    have cmp: "buffer_length c - index c - 2 < ucast (of_nat L :: u16) \<longleftrightarrow> n - i - 2 < L"
      by (simp add: word_less_nat_alt r2 unat_ucast_len16 [OF Lb])
    have "unat (buffer_length c) < 2 ^ 32"
      using unsigned_less [of "buffer_length c", where ?'a = nat] by simp
    then have "unat (index c) + 2 < 2 ^ 32"
      using ge \<open>i \<le> n\<close> by (simp add: i n)
    then have i2: "unat (index c + 2) = i + 2" by (simp add: unat_word_ariths i)
    have idx: "index c + (2 + ucast (of_nat L :: u16)) = index c + 2 + of_nat L"
      by (simp add: ucast_len16 [OF Lb])
    from False lt2 rb cmp i2 idx show ?thesis
      by (simp add: mmr_default_buffer_read_node_def Let_def L [symmetric]
          unat_len16 [OF Lb] ucast_len16 [OF Lb])
  qed
qed


lemma leaf_iter_read_inside:
  assumes ok: "reader_ok c"
    and i: "i = unat (index c)" and n: "n = unat (buffer_length c)"
    and L: "L = le_value (take 2 (drop (i + 8) (buffer c)))"
  shows "(i = n \<longrightarrow> mmr_default_leaf_iter_read c = Inr (c, Inl ERROR_NO_MORE_LEAFS))
       \<and> (i < n \<and> n - i < 8 \<longrightarrow> mmr_default_leaf_iter_read c = Inr (c, Inl ERROR_LEAF_EOF))
       \<and> (8 \<le> n - i \<and> (n - i < 10 \<or> n - i - 10 < L) \<longrightarrow>
            mmr_default_leaf_iter_read c = Inr (c\<lparr>index := index c + 8\<rparr>, Inl ERROR_NODE_EOF))
       \<and> (10 \<le> n - i \<and> L \<le> n - i - 10 \<longrightarrow>
            mmr_default_leaf_iter_read c
              = Inr (c\<lparr>index := index c + 10 + of_nat L\<rparr>,
                     Inr (\<lparr>node_t = MMR_NODE_TYPE_POINTER,
                           node_value = take L (drop (i + 10) (buffer c)),
                           node_length = of_nat L\<rparr>,
                          of_nat (le_value (take 8 (drop i (buffer c)))))))"
proof -
  from ok have len: "n \<le> length (buffer c)" and le: "index c \<le> buffer_length c"
    by (simp_all add: reader_ok_def n)
  from le have in_le: "i \<le> n" by (simp add: i n word_le_nat_alt)
  have ge: "buffer_length c \<le> index c \<longleftrightarrow> i = n"
    using in_le by (auto simp: i n word_le_nat_alt)
  have r: "unat (buffer_length c - index c) = n - i"
    using le by (simp add: i n unat_sub)
  have lt8: "buffer_length c - index c < 8 \<longleftrightarrow> n - i < 8"
    by (simp add: word_less_nat_alt r)
  show ?thesis
  proof (cases "n - i < 8")
    case True
    with ge lt8 show ?thesis by (auto simp: mmr_default_leaf_iter_read_def)
  next
    case False
    then have g8: "8 \<le> n - i" by simp
    then have ne: "i \<noteq> n" by auto
    define c1 where "c1 = c\<lparr>index := index c + 8\<rparr>"
    have "unat (buffer_length c) < 2 ^ 32"
      using unsigned_less [of "buffer_length c", where ?'a = nat] by simp
    then have "unat (index c) + 8 < 2 ^ 32" using g8 in_le by (simp add: i n)
    then have i8: "unat (index c + 8) = i + 8" by (simp add: unat_word_ariths i)
    have ok1: "reader_ok c1"
      using ok g8 in_le i8 by (simp add: reader_ok_def c1_def word_le_nat_alt n)
    have i1: "i + 8 = unat (index c1)" by (simp add: c1_def i8)
    have n1: "n = unat (buffer_length c1)" by (simp add: c1_def n)
    have L1: "L = le_value (take 2 (drop (i + 8) (buffer c1)))" by (simp add: c1_def L)
    note node = read_node_spec [OF ok1 i1 n1 L1]
    have rb: "read_bytes (buffer c) (unat (index c)) 8 = Inr (take 8 (drop i (buffer c)))"
      using g8 len in_le by (simp add: read_bytes_def i)
    have unfold: "mmr_default_leaf_iter_read c =
        (case mmr_default_buffer_read_node c1 of
           Inl f \<Rightarrow> Inl f
         | Inr (c', Inl ret) \<Rightarrow> Inr (c', Inl ret)
         | Inr (c', Inr out_node) \<Rightarrow>
             Inr (c', Inr (out_node, of_nat (le_value (take 8 (drop i (buffer c)))))))"
      using ne ge False lt8 rb by (simp add: mmr_default_leaf_iter_read_def Let_def c1_def)
    show ?thesis
    proof (cases "n - i < 10 \<or> n - i - 10 < L")
      case True
      then have "n - (i + 8) < 2 \<or> n - (i + 8) - 2 < L" by auto
      with node have "mmr_default_buffer_read_node c1 = Inr (c1, Inl ERROR_NODE_EOF)" by blast
      with True False ne show ?thesis by (auto simp: unfold c1_def)
    next
      case nt: False
      then have "2 \<le> n - (i + 8) \<and> L \<le> n - (i + 8) - 2" by auto
      with node have "mmr_default_buffer_read_node c1
              = Inr (c1\<lparr>index := index c1 + 2 + of_nat L\<rparr>,
                     Inr \<lparr>node_t = MMR_NODE_TYPE_POINTER,
                          node_value = take L (drop (i + 8 + 2) (buffer c1)),
                          node_length = of_nat L\<rparr>)"
        by blast
      moreover have "c1\<lparr>index := index c1 + 2 + of_nat L\<rparr> = c\<lparr>index := index c + 10 + of_nat L\<rparr>"
        by (simp add: c1_def)
      moreover have "drop (i + 8 + 2) (buffer c1) = drop (i + 10) (buffer c)"
        by (simp add: c1_def add.commute)
      ultimately have "mmr_default_buffer_read_node c1
              = Inr (c\<lparr>index := index c + 10 + of_nat L\<rparr>,
                     Inr \<lparr>node_t = MMR_NODE_TYPE_POINTER,
                          node_value = take L (drop (i + 10) (buffer c)),
                          node_length = of_nat L\<rparr>)"
        by (simp only:)
      with nt False ne show ?thesis by (auto simp: unfold)
    qed
  qed
qed

text \<open>
  C9. The default leaf reader on any context, with \<open>i\<close> the cursor, \<open>n\<close> the declared
  length and \<open>L\<close> the value of the two bytes at \<open>i + 8\<close>. With the cursor at the end of the
  buffer (or behind it) the result is \<^verbatim>\<open>ERROR_NO_MORE_LEAFS\<close>, with fewer than 8 bytes left
  it is \<^verbatim>\<open>ERROR_LEAF_EOF\<close>, in both cases with the cursor where it was and without a
  look at the buffer. The other two cases read the buffer, which has to hold the \<open>n\<close>
  bytes it declares. With the position read and fewer than 2 bytes left for the length of
  the node, or fewer than \<open>L\<close> for its bytes, the result is \<^verbatim>\<open>ERROR_NODE_EOF\<close>, with the
  cursor behind the position. Otherwise the reader yields the position, the 8 bytes at
  \<open>i\<close> least significant first, and the node of the \<open>L\<close> bytes at \<open>i + 10\<close>, and the
  cursor is behind the record, at \<open>i + 10 + L\<close>.
\<close>

theorem leaf_iter_read_spec:
  assumes i: "i = unat (index c)" and n: "n = unat (buffer_length c)"
    and L: "L = le_value (take 2 (drop (i + 8) (buffer c)))"
  shows "(n \<le> i \<longrightarrow> mmr_default_leaf_iter_read c = Inr (c, Inl ERROR_NO_MORE_LEAFS))
       \<and> (i < n \<and> n - i < 8 \<longrightarrow> mmr_default_leaf_iter_read c = Inr (c, Inl ERROR_LEAF_EOF))
       \<and> (n \<le> length (buffer c) \<and> 8 \<le> n - i \<and> (n - i < 10 \<or> n - i - 10 < L) \<longrightarrow>
            mmr_default_leaf_iter_read c = Inr (c\<lparr>index := index c + 8\<rparr>, Inl ERROR_NODE_EOF))
       \<and> (n \<le> length (buffer c) \<and> 10 \<le> n - i \<and> L \<le> n - i - 10 \<longrightarrow>
            mmr_default_leaf_iter_read c
              = Inr (c\<lparr>index := index c + 10 + of_nat L\<rparr>,
                     Inr (\<lparr>node_t = MMR_NODE_TYPE_POINTER,
                           node_value = take L (drop (i + 10) (buffer c)),
                           node_length = of_nat L\<rparr>,
                          of_nat (le_value (take 8 (drop i (buffer c)))))))"
proof (intro conjI impI)
  assume "n \<le> i"
  then have "buffer_length c \<le> index c" by (simp add: i n word_le_nat_alt)
  then show "mmr_default_leaf_iter_read c = Inr (c, Inl ERROR_NO_MORE_LEAFS)"
    by (simp add: mmr_default_leaf_iter_read_def)
next
  assume a: "i < n \<and> n - i < 8"
  then have lt: "index c < buffer_length c" by (simp add: i n word_less_nat_alt)
  then have "unat (buffer_length c - index c) = n - i" by (simp add: i n unat_sub)
  with a have "buffer_length c - index c < 8" by (simp add: word_less_nat_alt)
  with lt show "mmr_default_leaf_iter_read c = Inr (c, Inl ERROR_LEAF_EOF)"
    by (simp add: mmr_default_leaf_iter_read_def not_le)
next
  assume a: "n \<le> length (buffer c) \<and> 8 \<le> n - i \<and> (n - i < 10 \<or> n - i - 10 < L)"
  then have "i \<le> n" by linarith
  then have "index c \<le> buffer_length c" by (simp add: i n word_le_nat_alt)
  with a have ok: "reader_ok c" by (simp add: reader_ok_def n)
  from leaf_iter_read_inside [OF ok i n L] a
  show "mmr_default_leaf_iter_read c = Inr (c\<lparr>index := index c + 8\<rparr>, Inl ERROR_NODE_EOF)"
    by blast
next
  assume a: "n \<le> length (buffer c) \<and> 10 \<le> n - i \<and> L \<le> n - i - 10"
  then have "i \<le> n" by linarith
  then have "index c \<le> buffer_length c" by (simp add: i n word_le_nat_alt)
  with a have ok: "reader_ok c" by (simp add: reader_ok_def n)
  from leaf_iter_read_inside [OF ok i n L] a
  show "mmr_default_leaf_iter_read c
              = Inr (c\<lparr>index := index c + 10 + of_nat L\<rparr>,
                     Inr (\<lparr>node_t = MMR_NODE_TYPE_POINTER,
                           node_value = take L (drop (i + 10) (buffer c)),
                           node_length = of_nat L\<rparr>,
                          of_nat (le_value (take 8 (drop i (buffer c))))))"
    by blast
qed

lemma example_leaves_fields:
  "le_value (take 2 (drop (0 + 8) example_leaves)) = 1"
  "le_value (take 8 (drop 0 example_leaves)) = 0"
  "take 1 (drop (0 + 10) example_leaves) = [0xAA]"
  "length example_leaves = 11"
  by (simp_all add: example_leaves_def)

text \<open>
  C9 on the buffer of the example, which holds one record of 11 bytes: read from its start,
  from its end, from a cursor 7 bytes before the end, and from its start with the last
  byte cut off.
\<close>

theorem leaf_iter_read_spec_witness:
  "length example_leaves = 11
   \<and> mmr_default_leaf_iter_read \<lparr>buffer = example_leaves, buffer_length = 11, index = 0\<rparr>
       = Inr (\<lparr>buffer = example_leaves, buffer_length = 11, index = 11\<rparr>,
              Inr (\<lparr>node_t = MMR_NODE_TYPE_POINTER, node_value = [0xAA], node_length = 1\<rparr>, 0))
   \<and> mmr_default_leaf_iter_read \<lparr>buffer = example_leaves, buffer_length = 11, index = 11\<rparr>
       = Inr (\<lparr>buffer = example_leaves, buffer_length = 11, index = 11\<rparr>, Inl ERROR_NO_MORE_LEAFS)
   \<and> mmr_default_leaf_iter_read \<lparr>buffer = example_leaves, buffer_length = 11, index = 4\<rparr>
       = Inr (\<lparr>buffer = example_leaves, buffer_length = 11, index = 4\<rparr>, Inl ERROR_LEAF_EOF)
   \<and> mmr_default_leaf_iter_read \<lparr>buffer = example_leaves, buffer_length = 10, index = 0\<rparr>
       = Inr (\<lparr>buffer = example_leaves, buffer_length = 10, index = 8\<rparr>, Inl ERROR_NODE_EOF)"
proof -
  let ?a = "\<lparr>buffer = example_leaves, buffer_length = 11, index = 0\<rparr>"
  let ?b = "\<lparr>buffer = example_leaves, buffer_length = 11, index = 11\<rparr>"
  let ?c = "\<lparr>buffer = example_leaves, buffer_length = 11, index = 4\<rparr>"
  let ?d = "\<lparr>buffer = example_leaves, buffer_length = 10, index = 0\<rparr>"
  have ia: "(0::nat) = unat (index ?a)" and na: "(11::nat) = unat (buffer_length ?a)"
    and La: "(1::nat) = le_value (take 2 (drop (0 + 8) (buffer ?a)))"
    using example_leaves_fields by simp_all
  have ib: "(11::nat) = unat (index ?b)" and nb: "(11::nat) = unat (buffer_length ?b)"
    and ic: "(4::nat) = unat (index ?c)" and nc: "(11::nat) = unat (buffer_length ?c)"
    and id: "(0::nat) = unat (index ?d)" and nd: "(10::nat) = unat (buffer_length ?d)"
    and Ld: "(1::nat) = le_value (take 2 (drop (0 + 8) (buffer ?d)))"
    using example_leaves_fields by simp_all
  from leaf_iter_read_spec [OF ia na La]
  have "mmr_default_leaf_iter_read ?a
           = Inr (?a\<lparr>index := index ?a + 10 + of_nat 1\<rparr>,
                  Inr (\<lparr>node_t = MMR_NODE_TYPE_POINTER,
                        node_value = take 1 (drop (0 + 10) (buffer ?a)),
                        node_length = of_nat 1\<rparr>,
                       of_nat (le_value (take 8 (drop 0 (buffer ?a))))))"
    by (simp add: example_leaves_fields)
  then have a: "mmr_default_leaf_iter_read ?a
       = Inr (?b, Inr (\<lparr>node_t = MMR_NODE_TYPE_POINTER, node_value = [0xAA], node_length = 1\<rparr>, 0))"
    using example_leaves_fields by simp
  from leaf_iter_read_spec [OF ib nb refl]
  have b: "mmr_default_leaf_iter_read ?b = Inr (?b, Inl ERROR_NO_MORE_LEAFS)"
    by simp
  from leaf_iter_read_spec [OF ic nc refl]
  have c: "mmr_default_leaf_iter_read ?c = Inr (?c, Inl ERROR_LEAF_EOF)"
    by simp
  from leaf_iter_read_spec [OF id nd Ld]
  have "mmr_default_leaf_iter_read ?d = Inr (?d\<lparr>index := index ?d + 8\<rparr>, Inl ERROR_NODE_EOF)"
    by (simp add: example_leaves_fields)
  then have d: "mmr_default_leaf_iter_read ?d
       = Inr (\<lparr>buffer = example_leaves, buffer_length = 10, index = 8\<rparr>, Inl ERROR_NODE_EOF)"
    by simp
  from example_leaves_fields(4) a b c d show ?thesis by (intro conjI)
qed

end
